theory Spec2Isabelle
  imports Complex_Main
begin

section \<open>Strings\<close>

text \<open>
  A JavaScript string is a sequence of UTF-16 code units; a code unit is modelled by its
  number. \<open>str\<close> turns an ASCII literal into such a sequence.
\<close>

type_synonym jsstring = "nat list"

definition str :: "string \<Rightarrow> jsstring" where
  "str s = map of_char s"

text \<open>
  The characters matched by \<^verbatim>\<open>\s\<close> in a regular expression, which are also the ones
  removed by \<^verbatim>\<open>String.prototype.trim\<close> and skipped by \<^verbatim>\<open>parseInt\<close>: TAB, LF, VT, FF, CR,
  SPACE, NBSP, U+1680, U+2000 to U+200A, LS, PS, U+202F, U+205F, U+3000 and U+FEFF.
\<close>

definition is_ws :: "nat \<Rightarrow> bool" where
  "is_ws c = (c \<in> {9, 10, 11, 12, 13, 32, 160, 5760, 8232, 8233, 8239, 8287, 12288, 65279}
             \<or> (8192 \<le> c \<and> c \<le> 8202))"

text \<open>\<^verbatim>\<open>s.match(/^\s/)\<close> and \<^verbatim>\<open>s.match(/\s$/)\<close>, read as truth values.\<close>

definition starts_ws :: "jsstring \<Rightarrow> bool" where
  "starts_ws s = (case s of [] \<Rightarrow> False | c # _ \<Rightarrow> is_ws c)"

definition ends_ws :: "jsstring \<Rightarrow> bool" where
  "ends_ws s = (case rev s of [] \<Rightarrow> False | c # _ \<Rightarrow> is_ws c)"

text \<open>\<^verbatim>\<open>s.trim()\<close>.\<close>

definition trim :: "jsstring \<Rightarrow> jsstring" where
  "trim s = rev (dropWhile is_ws (rev (dropWhile is_ws s)))"

section \<open>The document tree\<close>

text \<open>
  The style of an element: for each of the four properties the program reads, the value
  the element itself declares, as the platform reports it (a color as \<^verbatim>\<open>rgb(r, g, b)\<close> or
  \<^verbatim>\<open>rgba(r, g, b, a)\<close>) or as the program has written it; \<open>None\<close> is a property that the
  element does not declare.
\<close>

record style =
  color :: "jsstring option"
  backgroundColor :: "jsstring option"
  visibility :: "jsstring option"
  opacity :: "jsstring option"

text \<open>
  A DOM node is a text node, an element or a node of another kind (a comment, say). The
  string of an element is \<^verbatim>\<open>tagName.toLowerCase()\<close>. A node is identified by its path: the
  child indices that lead to it from the root of the walk.
\<close>

datatype node =
    Text jsstring
  | Element jsstring style "node list"
  | Comment jsstring

type_synonym path = "nat list"

fun update_at :: "path \<Rightarrow> (node \<Rightarrow> node) \<Rightarrow> node \<Rightarrow> node"
  and update_kids :: "nat \<Rightarrow> path \<Rightarrow> (node \<Rightarrow> node) \<Rightarrow> node list \<Rightarrow> node list" where
  "update_at [] f n = f n"
| "update_at (i # p) f (Element tag st kids) = Element tag st (update_kids i p f kids)"
| "update_at (i # p) f (Text c) = Text c"
| "update_at (i # p) f (Comment c) = Comment c"
| "update_kids i p f [] = []"
| "update_kids 0 p f (n # rest) = update_at p f n # rest"
| "update_kids (Suc i) p f (n # rest) = n # update_kids i p f rest"

fun node_at :: "path \<Rightarrow> node \<Rightarrow> node option"
  and kid_at :: "nat \<Rightarrow> path \<Rightarrow> node list \<Rightarrow> node option" where
  "node_at [] n = Some n"
| "node_at (i # p) (Element tag st kids) = kid_at i p kids"
| "node_at (i # p) (Text c) = None"
| "node_at (i # p) (Comment c) = None"
| "kid_at i p [] = None"
| "kid_at 0 p (n # rest) = node_at p n"
| "kid_at (Suc i) p (n # rest) = kid_at i p rest"

text \<open>\<^verbatim>\<open>node.textContent\<close>: the text of the text nodes below a node, in document order.\<close>

fun textOf :: "node \<Rightarrow> jsstring" where
  "textOf (Text c) = c"
| "textOf (Element tag st kids) = concat (map textOf kids)"
| "textOf (Comment c) = []"

definition noStyle :: style where
  "noStyle = \<lparr>color = None, backgroundColor = None, visibility = None, opacity = None\<rparr>"

section \<open>html-normalizer.js\<close>

definition blockElements :: "jsstring list" where
  "blockElements = map str [''div'', ''p'', ''h1'', ''h2'', ''h3'', ''h4'', ''h5'', ''h6'',
     ''ul'', ''ol'', ''li'', ''blockquote'', ''pre'', ''hr'', ''table'', ''tr'', ''td'', ''th'']"

text \<open>
  \<^verbatim>\<open>needsLeadingSpace(node)\<close> reads \<^verbatim>\<open>node.previousSibling\<close> only, so the model takes that
  sibling (\<open>None\<close> when there is none); likewise \<^verbatim>\<open>needsTrailingSpace\<close> and
  \<^verbatim>\<open>node.nextSibling\<close>.
\<close>

fun needsLeadingSpace :: "node option \<Rightarrow> bool" where
  "needsLeadingSpace None = False"
| "needsLeadingSpace (Some (Element tagName st kids)) =
     (if tagName \<in> set blockElements then False else True)"
| "needsLeadingSpace (Some (Text textContent)) = (\<not> ends_ws textContent)"
| "needsLeadingSpace (Some (Comment c)) = False"

fun needsTrailingSpace :: "node option \<Rightarrow> bool" where
  "needsTrailingSpace None = False"
| "needsTrailingSpace (Some (Element tagName st kids)) =
     (if tagName \<in> set blockElements then False else True)"
| "needsTrailingSpace (Some (Text textContent)) = (\<not> starts_ws textContent)"
| "needsTrailingSpace (Some (Comment c)) = False"

datatype position = Leading | Trailing

definition nextSibling :: "node list \<Rightarrow> node option" where
  "nextSibling rest = (case rest of [] \<Rightarrow> None | n # _ \<Rightarrow> Some n)"

definition under :: "nat \<Rightarrow> (path \<times> 'a) list \<Rightarrow> (path \<times> 'a) list" where
  "under i fs = map (\<lambda>(p, x). (i # p, x)) fs"

text \<open>
  The first loop of \<^verbatim>\<open>normalizeWhitespace\<close>: the tree walker visits the text nodes below
  the root in document order. \<open>nodesToFix i prev kids\<close> walks the children \<open>kids\<close> of one
  element, which start at index \<open>i\<close> and follow the sibling \<open>prev\<close>, and returns the
  entries pushed, each with the path of its node.
\<close>

fun nodesToFix :: "nat \<Rightarrow> node option \<Rightarrow> node list \<Rightarrow> (path \<times> position) list" where
  "nodesToFix i prev [] = []"
| "nodesToFix i prev (Text textContent # rest) =
     (if textContent = [] \<or> trim textContent = [] then []
      else (if needsLeadingSpace prev then [([i], Leading)] else []) @
           (if needsTrailingSpace (nextSibling rest) then [([i], Trailing)] else [])) @
     nodesToFix (Suc i) (Some (Text textContent)) rest"
| "nodesToFix i prev (Element tag st kids # rest) =
     under i (nodesToFix 0 None kids) @
     nodesToFix (Suc i) (Some (Element tag st kids)) rest"
| "nodesToFix i prev (Comment c # rest) =
     nodesToFix (Suc i) (Some (Comment c)) rest"

text \<open>The body of the second loop, on the text content of the entry's node.\<close>

definition fixText :: "position \<Rightarrow> jsstring \<Rightarrow> jsstring" where
  "fixText pos textContent =
     (if pos = Leading \<and> \<not> starts_ws textContent then 32 # textContent
      else if pos = Trailing \<and> \<not> ends_ws textContent then textContent @ [32]
      else textContent)"

fun onText :: "(jsstring \<Rightarrow> jsstring) \<Rightarrow> node \<Rightarrow> node" where
  "onText f (Text c) = Text (f c)"
| "onText f n = n"

definition applyFix :: "node \<Rightarrow> path \<times> position \<Rightarrow> node" where
  "applyFix tree e = update_at (fst e) (onText (fixText (snd e))) tree"

fun normalizeWhitespace :: "node \<Rightarrow> node" where
  "normalizeWhitespace (Element tag st kids) =
     foldl applyFix (Element tag st kids) (nodesToFix 0 None kids)"
| "normalizeWhitespace n = n"

section \<open>style-processor.js\<close>

subsection \<open>Numbers\<close>

text \<open>
  A JavaScript number is modelled as a real or \<open>NaN\<close>. The arithmetic of the program
  is exact on it: the rounding of a result to double precision and the overflow to an
  infinity are left out. An arithmetic operation with a \<open>NaN\<close> operand is \<open>NaN\<close>, a
  comparison with a \<open>NaN\<close> operand is false.
\<close>

datatype jsnum = NaN | Num real

fun lift2 :: "(real \<Rightarrow> real \<Rightarrow> real) \<Rightarrow> jsnum \<Rightarrow> jsnum \<Rightarrow> jsnum" where
  "lift2 f (Num x) (Num y) = Num (f x y)"
| "lift2 f _ _ = NaN"

fun js_less :: "jsnum \<Rightarrow> jsnum \<Rightarrow> bool" where
  "js_less (Num x) (Num y) = (x < y)"
| "js_less _ _ = False"

abbreviation js_greater :: "jsnum \<Rightarrow> jsnum \<Rightarrow> bool" where
  "js_greater a b \<equiv> js_less b a"

subsection \<open>parseInt\<close>

definition is_digit :: "nat \<Rightarrow> bool" where
  "is_digit c = (48 \<le> c \<and> c \<le> 57)"

definition digitValue :: "nat \<Rightarrow> nat" where
  "digitValue c =
     (if 48 \<le> c \<and> c \<le> 57 then c - 48
      else if 97 \<le> c \<and> c \<le> 122 then c - 87
      else if 65 \<le> c \<and> c \<le> 90 then c - 55
      else 36)"

definition digitsValue :: "nat \<Rightarrow> jsstring \<Rightarrow> nat" where
  "digitsValue R z = foldl (\<lambda>acc c. R * acc + digitValue c) 0 z"

text \<open>
  \<^verbatim>\<open>parseInt\<close> returns a double: the integer that the digits denote, rounded to the
  nearest number with a significand of 53 bits, a tie going to the even significand.
  \<open>toDouble\<close> is that rounding; it changes no integer below \<open>2^53\<close>, and \<open>2^53 + 1\<close> is the
  first it changes. (From about \<open>1.8e308\<close> on the program has an infinity; the model,
  which has none, keeps the rounded integer.)
\<close>

fun bitLength :: "nat \<Rightarrow> nat" where
  "bitLength n = (if n = 0 then 0 else Suc (bitLength (n div 2)))"

declare bitLength.simps [simp del]

definition toDouble :: "nat \<Rightarrow> nat" where
  "toDouble n =
     (if bitLength n \<le> 53 then n
      else let unit = 2 ^ (bitLength n - 53); q = n div unit; r = n mod unit
           in if unit < 2 * r \<or> (2 * r = unit \<and> odd q) then (q + 1) * unit else q * unit)"

text \<open>
  \<^verbatim>\<open>parseInt(string)\<close> is \<open>parseInt string None\<close> and \<^verbatim>\<open>parseInt(string, 16)\<close> is
  \<open>parseInt string (Some 16)\<close>, the only two forms the program uses: leading whitespace
  is skipped, a sign is read, a \<^verbatim>\<open>0x\<close> prefix selects radix 16, and the longest prefix of
  digits of the radix is the value; without a digit the result is \<open>NaN\<close>.
\<close>

definition parseInt :: "jsstring \<Rightarrow> nat option \<Rightarrow> jsnum" where
  "parseInt string radix =
     (let s0 = dropWhile is_ws string;
          sign = (case s0 of [] \<Rightarrow> 1 | c # _ \<Rightarrow> if c = 45 then - 1 else (1::real));
          s1 = (case s0 of [] \<Rightarrow> [] | c # r \<Rightarrow> if c = 43 \<or> c = 45 then r else s0);
          prefixed = (take 2 s1 = str ''0x'' \<or> take 2 s1 = str ''0X'');
          R = (if prefixed then 16 else case radix of None \<Rightarrow> 10 | Some r \<Rightarrow> r);
          s2 = (if prefixed then drop 2 s1 else s1);
          z = takeWhile (\<lambda>c. digitValue c < R) s2
      in if z = [] then NaN else Num (sign * real (toDouble (digitsValue R z))))"

subsection \<open>The regular expression of parseColor\<close>

text \<open>
  \<^verbatim>\<open>/rgba?\((\d+),\s*(\d+),\s*(\d+)/\<close>. Every quantifier of this expression is followed
  by a character it cannot match itself, so the greedy choice is the only one that can
  succeed and the matcher needs no backtracking. \<open>rgbMatchAt\<close> matches at the start of
  its argument and returns the three groups; \<open>rgbMatch\<close> is \<^verbatim>\<open>color.match(...)\<close>, which
  returns the leftmost match.
\<close>

fun literal :: "jsstring \<Rightarrow> jsstring \<Rightarrow> jsstring option" where
  "literal [] s = Some s"
| "literal (c # cs) [] = None"
| "literal (c # cs) (d # s) = (if c = d then literal cs s else None)"

definition digits1 :: "jsstring \<Rightarrow> (jsstring \<times> jsstring) option" where
  "digits1 s = (if takeWhile is_digit s = [] then None
                else Some (takeWhile is_digit s, dropWhile is_digit s))"

definition optional_a :: "jsstring \<Rightarrow> jsstring" where
  "optional_a s = (case s of [] \<Rightarrow> [] | c # r \<Rightarrow> if c = 97 then r else s)"

definition rgbMatchAt :: "jsstring \<Rightarrow> (jsstring \<times> jsstring \<times> jsstring) option" where
  "rgbMatchAt s =
     (case literal (str ''rgb'') s of None \<Rightarrow> None | Some s1 \<Rightarrow>
      case literal (str ''('') (optional_a s1) of None \<Rightarrow> None | Some s2 \<Rightarrow>
      case digits1 s2 of None \<Rightarrow> None | Some (r, s3) \<Rightarrow>
      case literal (str '','') s3 of None \<Rightarrow> None | Some s4 \<Rightarrow>
      case digits1 (dropWhile is_ws s4) of None \<Rightarrow> None | Some (g, s5) \<Rightarrow>
      case literal (str '','') s5 of None \<Rightarrow> None | Some s6 \<Rightarrow>
      case digits1 (dropWhile is_ws s6) of None \<Rightarrow> None | Some (b, s7) \<Rightarrow>
      Some (r, g, b))"

fun rgbMatch :: "jsstring \<Rightarrow> (jsstring \<times> jsstring \<times> jsstring) option" where
  "rgbMatch [] = rgbMatchAt []"
| "rgbMatch (c # s) =
     (case rgbMatchAt (c # s) of Some m \<Rightarrow> Some m | None \<Rightarrow> rgbMatch s)"

subsection \<open>Computed colors\<close>

text \<open>
  The platform serializes a computed color as \<^verbatim>\<open>rgb(r, g, b)\<close> when it is opaque and as
  \<^verbatim>\<open>rgba(r, g, b, a)\<close> otherwise, the channels in decimal. \<open>dec\<close> writes a number in
  decimal.
\<close>

fun dec :: "nat \<Rightarrow> jsstring" where
  "dec n = (if n < 10 then [48 + n] else dec (n div 10) @ [48 + n mod 10])"

declare dec.simps [simp del]

datatype computed_color = RGB nat nat nat | RGBA nat nat nat jsstring

fun serialize :: "computed_color \<Rightarrow> jsstring" where
  "serialize (RGB r g b) =
     str ''rgb('' @ dec r @ str '', '' @ dec g @ str '', '' @ dec b @ str '')''"
| "serialize (RGBA r g b a) =
     str ''rgba('' @ dec r @ str '', '' @ dec g @ str '', '' @ dec b @ str '', '' @ a @ str '')''"

subsection \<open>The regular expression on a serialized color\<close>

text \<open>
  The expression matches every string the platform serializes, at its start, and the
  groups are the three channels. The last branch of \<open>parseColor\<close> calls itself on such a
  string, so this is what makes \<open>parseColor\<close> return.
\<close>

lemma dec_digits: "dec n \<noteq> [] \<and> (\<forall>c \<in> set (dec n). is_digit c)"
proof (induction n rule: dec.induct)
  case (1 n)
  show ?case
  proof (cases "n < 10")
    case True
    then show ?thesis by (subst dec.simps, subst (2) dec.simps) (simp add: is_digit_def)
  next
    case False
    have "n mod 10 < 10" by simp
    then have "is_digit (48 + n mod 10)" unfolding is_digit_def by linarith
    with False "1.IH" show ?thesis
      by (subst dec.simps, subst (2) dec.simps) simp
  qed
qed

lemma digitsValue_snoc: "digitsValue R (z @ [c]) = R * digitsValue R z + digitValue c"
  by (simp add: digitsValue_def)

lemma digitsValue_dec: "digitsValue 10 (dec n) = n"
proof (induction n rule: dec.induct)
  case (1 n)
  show ?case
  proof (cases "n < 10")
    case True
    then show ?thesis by (subst dec.simps) (simp add: digitsValue_def digitValue_def)
  next
    case False
    have "digitValue (48 + n mod 10) = n mod 10"
      by (simp add: digitValue_def)
    with False "1.IH" show ?thesis
      by (subst dec.simps) (simp add: digitsValue_snoc)
  qed
qed


lemma is_digit_not_ws: "is_digit c \<Longrightarrow> \<not> is_ws c"
  by (auto simp: is_digit_def is_ws_def)

lemma digits1_digits:
  assumes "ds \<noteq> []" "\<forall>c \<in> set ds. is_digit c" "\<not> is_digit c"
  shows "digits1 (ds @ c # rest) = Some (ds, c # rest)"
  using assms by (simp add: digits1_def takeWhile_append2 dropWhile_append2)

lemma dropWhile_ws_digits:
  assumes "ds \<noteq> []" "\<forall>c \<in> set ds. is_digit c"
  shows "dropWhile is_ws (ds @ rest) = ds @ rest"
  using assms by (cases ds) (auto simp: is_digit_not_ws)

lemma rgbMatchAt_digits:
  assumes r: "r \<noteq> []" "\<forall>c \<in> set r. is_digit c"
    and g: "g \<noteq> []" "\<forall>c \<in> set g. is_digit c"
    and b: "b \<noteq> []" "\<forall>c \<in> set b. is_digit c"
    and c: "\<not> is_digit c"
  shows "rgbMatchAt (str ''rgb('' @ r @ str '', '' @ g @ str '', '' @ b @ c # rest) = Some (r, g, b)"
    and "rgbMatchAt (str ''rgba('' @ r @ str '', '' @ g @ str '', '' @ b @ c # rest) = Some (r, g, b)"
proof -
  have comma: "\<not> is_digit 44" by (simp add: is_digit_def)
  have d1: "\<And>t. digits1 (r @ 44 # t) = Some (r, 44 # t)"
    using digits1_digits [OF r comma] by simp
  have d2: "\<And>t. digits1 (g @ 44 # t) = Some (g, 44 # t)"
    using digits1_digits [OF g comma] by simp
  have d3: "digits1 (b @ c # rest) = Some (b, c # rest)"
    using digits1_digits [OF b c] by simp
  have w2: "\<And>t. dropWhile is_ws (g @ t) = g @ t"
    using dropWhile_ws_digits [OF g] by simp
  have w3: "\<And>t. dropWhile is_ws (b @ t) = b @ t"
    using dropWhile_ws_digits [OF b] by simp
  have sp: "is_ws 32" by (simp add: is_ws_def)
  show "rgbMatchAt (str ''rgb('' @ r @ str '', '' @ g @ str '', '' @ b @ c # rest) = Some (r, g, b)"
    by (simp add: rgbMatchAt_def str_def optional_a_def d1 d2 d3 w2 w3 sp)
  show "rgbMatchAt (str ''rgba('' @ r @ str '', '' @ g @ str '', '' @ b @ c # rest) = Some (r, g, b)"
    by (simp add: rgbMatchAt_def str_def optional_a_def d1 d2 d3 w2 w3 sp)
qed

lemma rgbMatch_at_start: "rgbMatchAt s = Some m \<Longrightarrow> rgbMatch s = Some m"
  by (cases s) simp_all

lemma rgbMatch_serialize:
  "rgbMatch (serialize v) = Some (case v of RGB r g b \<Rightarrow> (dec r, dec g, dec b)
     | RGBA r g b a \<Rightarrow> (dec r, dec g, dec b))"
proof (cases v)
  case (RGB r g b)
  have "\<not> is_digit 41" by (simp add: is_digit_def)
  then have "rgbMatchAt (str ''rgb('' @ dec r @ str '', '' @ dec g @ str '', '' @ dec b @ 41 # []) =
      Some (dec r, dec g, dec b)"
    by (intro rgbMatchAt_digits) (simp_all add: dec_digits)
  then show ?thesis
    using RGB by (intro rgbMatch_at_start) (simp add: str_def)
next
  case (RGBA r g b a)
  have "\<not> is_digit 44" by (simp add: is_digit_def)
  then have "rgbMatchAt (str ''rgba('' @ dec r @ str '', '' @ dec g @ str '', '' @ dec b @
        44 # (32 # a @ str '')'')) = Some (dec r, dec g, dec b)"
    by (intro rgbMatchAt_digits) (simp_all add: dec_digits)
  then show ?thesis
    using RGBA by (intro rgbMatch_at_start) (simp add: str_def)
qed

subsection \<open>parseColor\<close>

type_synonym rgb = "jsnum \<times> jsnum \<times> jsnum"

text \<open>
  The last branch of \<^verbatim>\<open>parseColor\<close> hands the string to the platform: it sets it as the
  color of a temporary element and reads the computed color back. The platform is the
  parameter \<open>computedColorOf\<close>, which gives the computed color of that element.
\<close>

function parseColor :: "(jsstring \<Rightarrow> computed_color) \<Rightarrow> jsstring \<Rightarrow> rgb" where
  "parseColor computedColorOf css =
     (case rgbMatch css of
        Some (r, g, b) \<Rightarrow> (parseInt r None, parseInt g None, parseInt b None)
      | None \<Rightarrow>
          if take 1 css = str ''#'' then
            (let hex = remove1 35 css in
             if length hex = 3 then
               (parseInt [hex ! 0, hex ! 0] (Some 16),
                parseInt [hex ! 1, hex ! 1] (Some 16),
                parseInt [hex ! 2, hex ! 2] (Some 16))
             else
               (parseInt (take 2 (drop 0 hex)) (Some 16),
                parseInt (take 2 (drop 2 hex)) (Some 16),
                parseInt (take 2 (drop 4 hex)) (Some 16)))
          else if css = str ''transparent'' \<or> css = str ''rgba(0, 0, 0, 0)'' then
            (Num 255, Num 255, Num 255)
          else parseColor computedColorOf (serialize (computedColorOf css)))"
  by pat_completeness auto
termination
  by (relation "measure (\<lambda>(f, css). if rgbMatch css = None then 1 else 0)")
     (simp_all add: rgbMatch_serialize)

declare parseColor.simps [simp del]

subsection \<open>Luminance and contrast\<close>

definition lightThreshold :: real where
  "lightThreshold = 0.5"

definition contrastRatio :: real where
  "contrastRatio = 4.5"

text \<open>The function mapped over the channels by \<^verbatim>\<open>calculateLuminance\<close>.\<close>

fun linearize :: "jsnum \<Rightarrow> jsnum" where
  "linearize NaN = NaN"
| "linearize (Num v) =
     (let val = v / 255
      in if val \<le> 0.03928 then Num (val / 12.92)
         else Num (((val + 0.055) / 1.055) powr 2.4))"

definition calculateLuminance :: "rgb \<Rightarrow> jsnum" where
  "calculateLuminance rgb =
     (case rgb of (r0, g0, b0) \<Rightarrow>
        let r = linearize r0; g = linearize g0; b = linearize b0
        in lift2 (+) (lift2 (+) (lift2 (*) (Num 0.2126) r) (lift2 (*) (Num 0.7152) g))
             (lift2 (*) (Num 0.0722) b))"

definition calculateContrastRatio :: "jsnum \<Rightarrow> jsnum \<Rightarrow> jsnum" where
  "calculateContrastRatio lum1 lum2 =
     (let lighter = lift2 max lum1 lum2;
          darker = lift2 min lum1 lum2
      in lift2 (/) (lift2 (+) lighter (Num 0.05)) (lift2 (+) darker (Num 0.05)))"

definition isLightOnDark :: "(jsstring \<Rightarrow> computed_color) \<Rightarrow> jsstring \<Rightarrow> jsstring \<Rightarrow> bool" where
  "isLightOnDark f textColor bgColor =
     (let textRGB = parseColor f textColor;
          bgRGB = parseColor f bgColor;
          textLuminance = calculateLuminance textRGB;
          bgLuminance = calculateLuminance bgRGB
      in js_greater textLuminance bgLuminance)"

definition invertColor :: "(jsstring \<Rightarrow> computed_color) \<Rightarrow> jsstring \<Rightarrow> jsstring" where
  "invertColor f css =
     (let rgb = parseColor f css;
          luminance = calculateLuminance rgb
      in if js_greater luminance (Num lightThreshold) then str ''#000000'' else css)"

subsection \<open>Computed style\<close>

text \<open>
  \<^verbatim>\<open>window.getComputedStyle\<close> belongs to the platform. It is modelled on the chain of an
  element: its own style followed by the styles of its ancestors, the parent first, up
  to the root of the document. \<^verbatim>\<open>color\<close> and \<^verbatim>\<open>visibility\<close> are inherited, with black and
  \<^verbatim>\<open>visible\<close> at the root; \<^verbatim>\<open>background-color\<close> and \<^verbatim>\<open>opacity\<close> are not, and start as
  transparent and \<^verbatim>\<open>1\<close>. A declared value is read back as it was written.
\<close>

fun computedColor :: "style list \<Rightarrow> jsstring" where
  "computedColor [] = str ''rgb(0, 0, 0)''"
| "computedColor (st # parents) =
     (case color st of Some c \<Rightarrow> c | None \<Rightarrow> computedColor parents)"

fun computedVisibility :: "style list \<Rightarrow> jsstring" where
  "computedVisibility [] = str ''visible''"
| "computedVisibility (st # parents) =
     (case visibility st of Some v \<Rightarrow> v | None \<Rightarrow> computedVisibility parents)"

definition computedBackgroundColor :: "style \<Rightarrow> jsstring" where
  "computedBackgroundColor st =
     (case backgroundColor st of Some c \<Rightarrow> c | None \<Rightarrow> str ''rgba(0, 0, 0, 0)'')"

definition computedOpacity :: "style \<Rightarrow> jsstring" where
  "computedOpacity st = (case opacity st of Some v \<Rightarrow> v | None \<Rightarrow> str ''1'')"

subsection \<open>getEffectiveBackgroundColor\<close>

definition maxDepth :: nat where
  "maxDepth = 10"

text \<open>
  The test \<^verbatim>\<open>bgColor && bgColor !== 'transparent' && bgColor !== 'rgba(0, 0, 0, 0)'\<close>.
\<close>

definition declaresBackground :: "jsstring \<Rightarrow> bool" where
  "declaresBackground bgColor =
     (bgColor \<noteq> [] \<and> bgColor \<noteq> str ''transparent'' \<and> bgColor \<noteq> str ''rgba(0, 0, 0, 0)'')"

text \<open>
  The loop, on the chain of \<^verbatim>\<open>current\<close> (the empty chain is \<^verbatim>\<open>current === null\<close>) and
  \<^verbatim>\<open>depth\<close>.
\<close>

fun backgroundLoop :: "style list \<Rightarrow> nat \<Rightarrow> jsstring" where
  "backgroundLoop [] depth = str ''#ffffff''"
| "backgroundLoop (current # parents) depth =
     (if depth < maxDepth then
        (let bgColor = computedBackgroundColor current
         in if declaresBackground bgColor then bgColor
            else backgroundLoop parents (depth + 1))
      else str ''#ffffff'')"

definition getEffectiveBackgroundColor :: "style list \<Rightarrow> jsstring" where
  "getEffectiveBackgroundColor chain = backgroundLoop chain 0"

subsection \<open>invertColorsForPDF\<close>

type_synonym resolver = "jsstring \<Rightarrow> computed_color"

text \<open>
  The first loop: the tree walker visits the elements below the root in document order.
  \<open>anc\<close> is the chain of the parent of the children walked.
\<close>

fun elementsToInvert ::
  "resolver \<Rightarrow> style list \<Rightarrow> nat \<Rightarrow> node list \<Rightarrow> (path \<times> jsstring \<times> jsstring) list" where
  "elementsToInvert f anc i [] = []"
| "elementsToInvert f anc i (Element tag st kids # rest) =
     (let textColor = computedColor (st # anc);
          bgColor = getEffectiveBackgroundColor (st # anc)
      in if isLightOnDark f textColor bgColor
         then [([i], textColor, computedBackgroundColor st)] else []) @
     under i (elementsToInvert f (st # anc) 0 kids) @
     elementsToInvert f anc (Suc i) rest"
| "elementsToInvert f anc i (Text c # rest) = elementsToInvert f anc (Suc i) rest"
| "elementsToInvert f anc i (Comment c # rest) = elementsToInvert f anc (Suc i) rest"

text \<open>The body of the second loop, on the style of the entry's element.\<close>

definition invertStyle :: "resolver \<Rightarrow> jsstring \<Rightarrow> style \<Rightarrow> style" where
  "invertStyle f originalColor st =
     (let invertedColor = invertColor f originalColor;
          st1 = st\<lparr>color := Some invertedColor\<rparr>;
          bgColor = computedBackgroundColor st1
      in if declaresBackground bgColor then
           (let bgRGB = parseColor f bgColor;
                bgLuminance = calculateLuminance bgRGB
            in if js_less bgLuminance (Num lightThreshold)
               then st1\<lparr>backgroundColor := Some (str ''transparent'')\<rparr> else st1)
         else st1)"

fun onStyle :: "(style \<Rightarrow> style) \<Rightarrow> node \<Rightarrow> node" where
  "onStyle g (Element tag st kids) = Element tag (g st) kids"
| "onStyle g n = n"

definition applyInversion :: "resolver \<Rightarrow> node \<Rightarrow> path \<times> jsstring \<times> jsstring \<Rightarrow> node" where
  "applyInversion f tree e = update_at (fst e) (onStyle (invertStyle f (fst (snd e)))) tree"

text \<open>
  \<open>ctx\<close> is the chain of the parent of the element passed in; it is empty when that
  element is the root of the document. The function returns nothing; \<open>invertedCount\<close> is
  the number it writes to the console.
\<close>

fun invertColorsForPDF :: "resolver \<Rightarrow> style list \<Rightarrow> node \<Rightarrow> node" where
  "invertColorsForPDF f ctx (Element tag st kids) =
     foldl (applyInversion f) (Element tag st kids) (elementsToInvert f (st # ctx) 0 kids)"
| "invertColorsForPDF f ctx n = n"

fun invertedCount :: "resolver \<Rightarrow> style list \<Rightarrow> node \<Rightarrow> nat" where
  "invertedCount f ctx (Element tag st kids) =
     length (elementsToInvert f (st # ctx) 0 kids)"
| "invertedCount f ctx n = 0"

subsection \<open>ensureTextVisibility and fixContrastIssues\<close>

text \<open>
  These two walks write while they visit: an element is visited after its ancestors, so
  its computed style is read on the chain of the ancestors as already rewritten.
\<close>

definition visibleStyle :: "style list \<Rightarrow> style \<Rightarrow> style" where
  "visibleStyle anc st =
     (let st1 = (if computedVisibility (st # anc) = str ''hidden''
                 then st\<lparr>visibility := Some (str ''visible'')\<rparr> else st)
      in if computedOpacity st1 = str ''0'' then st1\<lparr>opacity := Some (str ''1'')\<rparr> else st1)"

fun visibleNode :: "style list \<Rightarrow> node \<Rightarrow> node" where
  "visibleNode anc (Element tag st kids) =
     Element tag (visibleStyle anc st) (map (visibleNode (visibleStyle anc st # anc)) kids)"
| "visibleNode anc (Text c) = Text c"
| "visibleNode anc (Comment c) = Comment c"

fun ensureTextVisibility :: "style list \<Rightarrow> node \<Rightarrow> node" where
  "ensureTextVisibility ctx (Element tag st kids) =
     Element tag st (map (visibleNode (st # ctx)) kids)"
| "ensureTextVisibility ctx n = n"

definition lowContrast :: "resolver \<Rightarrow> style list \<Rightarrow> bool" where
  "lowContrast f chain =
     (let textColor = computedColor chain;
          bgColor = getEffectiveBackgroundColor chain;
          textRGB = parseColor f textColor;
          bgRGB = parseColor f bgColor;
          textLum = calculateLuminance textRGB;
          bgLum = calculateLuminance bgRGB;
          contrast = calculateContrastRatio textLum bgLum
      in js_less contrast (Num contrastRatio))"

definition contrastStyle :: "resolver \<Rightarrow> style list \<Rightarrow> style \<Rightarrow> style" where
  "contrastStyle f anc st =
     (if lowContrast f (st # anc) then st\<lparr>color := Some (str ''#000000'')\<rparr> else st)"

fun contrastNode :: "resolver \<Rightarrow> style list \<Rightarrow> node \<Rightarrow> node" where
  "contrastNode f anc (Element tag st kids) =
     Element tag (contrastStyle f anc st)
       (map (contrastNode f (contrastStyle f anc st # anc)) kids)"
| "contrastNode f anc (Text c) = Text c"
| "contrastNode f anc (Comment c) = Comment c"

fun fixContrastIssues :: "resolver \<Rightarrow> style list \<Rightarrow> node \<Rightarrow> node" where
  "fixContrastIssues f ctx (Element tag st kids) =
     Element tag st (map (contrastNode f (st # ctx)) kids)"
| "fixContrastIssues f ctx n = n"

definition processStylesForPDF :: "resolver \<Rightarrow> style list \<Rightarrow> node \<Rightarrow> node" where
  "processStylesForPDF f ctx element =
     fixContrastIssues f ctx (ensureTextVisibility ctx (invertColorsForPDF f ctx element))"

section \<open>The vocabulary of the claims\<close>

subsection \<open>What one pass of the whitespace normalizer does to each text node\<close>

text \<open>
  The two loops amount to one rewriting of every text node from its content and its two
  siblings as they were before the pass: \<open>fixedText\<close> is that rewriting and \<open>normKids\<close>
  applies it along a list of children. Lemma \<open>normalizeWhitespace_Element\<close> below proves
  that \<open>normalizeWhitespace\<close> computes exactly this.
\<close>

definition fixedText :: "node option \<Rightarrow> jsstring \<Rightarrow> node option \<Rightarrow> jsstring" where
  "fixedText prev c nxt =
     (if c = [] \<or> trim c = [] then c
      else let c1 = (if needsLeadingSpace prev then fixText Leading c else c)
           in if needsTrailingSpace nxt then fixText Trailing c1 else c1)"

fun normKids :: "node option \<Rightarrow> node list \<Rightarrow> node list" where
  "normKids prev [] = []"
| "normKids prev (Text c # rest) =
     Text (fixedText prev c (nextSibling rest)) # normKids (Some (Text c)) rest"
| "normKids prev (Element tag st kids # rest) =
     Element tag st (normKids None kids) # normKids (Some (Element tag st kids)) rest"
| "normKids prev (Comment c # rest) = Comment c # normKids (Some (Comment c)) rest"

text \<open>
  \<open>edge_le a b\<close>: two siblings of one kind, with the same tag if they are elements and,
  if they are text nodes, \<open>b\<close> with whitespace at every end where \<open>a\<close> has it.
\<close>

fun edge_le :: "node option \<Rightarrow> node option \<Rightarrow> bool" where
  "edge_le None None = True"
| "edge_le (Some (Text c)) (Some (Text c')) =
     ((starts_ws c \<longrightarrow> starts_ws c') \<and> (ends_ws c \<longrightarrow> ends_ws c'))"
| "edge_le (Some (Element t s k)) (Some (Element t' s' k')) = (t = t')"
| "edge_le (Some (Comment c)) (Some (Comment c')) = True"
| "edge_le _ _ = False"

subsection \<open>The luminance formula of the specification\<close>

text \<open>
  The WCAG formula as the specification words it, on real channel values: each channel
  \<open>v\<close> is scaled to \<open>[0,1]\<close>, mapped to \<open>v/12.92\<close> if \<open>v \<le> 0.03928\<close> and to
  \<open>((v+0.055)/1.055)^2.4\<close> otherwise, and the three are combined with the weights
  \<open>0.2126\<close>, \<open>0.7152\<close> and \<open>0.0722\<close>.
\<close>

definition wcag_channel :: "real \<Rightarrow> real" where
  "wcag_channel c = (let v = c / 255 in
     if v \<le> 0.03928 then v / 12.92 else ((v + 0.055) / 1.055) powr 2.4)"

definition wcag_luminance :: "real \<Rightarrow> real \<Rightarrow> real \<Rightarrow> real" where
  "wcag_luminance r g b =
     0.2126 * wcag_channel r + 0.7152 * wcag_channel g + 0.0722 * wcag_channel b"

subsection \<open>The chain of the element at a path\<close>

text \<open>
  \<open>chain_at ctx p t\<close> is the chain of the element at path \<open>p\<close> of the tree \<open>t\<close>: its own
  style, then the styles of its ancestors up to the root of the tree, then \<open>ctx\<close>.
\<close>

fun chain_at :: "style list \<Rightarrow> path \<Rightarrow> node \<Rightarrow> style list option"
  and chain_kid :: "style list \<Rightarrow> nat \<Rightarrow> path \<Rightarrow> node list \<Rightarrow> style list option" where
  "chain_at ctx [] (Element tag st kids) = Some (st # ctx)"
| "chain_at ctx (i # p) (Element tag st kids) = chain_kid (st # ctx) i p kids"
| "chain_at ctx p (Text c) = None"
| "chain_at ctx p (Comment c) = None"
| "chain_kid anc i p [] = None"
| "chain_kid anc 0 p (n # rest) = chain_at anc p n"
| "chain_kid anc (Suc i) p (n # rest) = chain_kid anc i p rest"

text \<open>
  What the two loops of \<open>invertColorsForPDF\<close> amount to: every element below the root is
  rewritten from its chain as it was before the pass (lemma \<open>invertColorsForPDF_Element\<close>).
\<close>

fun invertNode :: "resolver \<Rightarrow> style list \<Rightarrow> node \<Rightarrow> node" where
  "invertNode f anc (Element tag st kids) =
     Element tag
       (if isLightOnDark f (computedColor (st # anc)) (getEffectiveBackgroundColor (st # anc))
        then invertStyle f (computedColor (st # anc)) st else st)
       (map (invertNode f (st # anc)) kids)"
| "invertNode f anc (Text c) = Text c"
| "invertNode f anc (Comment c) = Comment c"

text \<open>
  Two relations between the style of an element before and after a pass: the pass left
  both colors alone; the pass left the background alone and the text color either alone
  or black. \<open>invertedHead\<close> is the style the inversion gives the element that has the
  chain \<open>ch\<close>.
\<close>

definition sameColours :: "style \<Rightarrow> style \<Rightarrow> bool" where
  "sameColours s1 s2 = (color s2 = color s1 \<and> backgroundColor s2 = backgroundColor s1)"

definition blackened :: "style \<Rightarrow> style \<Rightarrow> bool" where
  "blackened s1 s2 = (backgroundColor s2 = backgroundColor s1 \<and>
     (color s2 = color s1 \<or> color s2 = Some (str ''#000000'')))"

definition invertedHead :: "resolver \<Rightarrow> style list \<Rightarrow> style" where
  "invertedHead f ch =
     (if isLightOnDark f (computedColor ch) (getEffectiveBackgroundColor ch)
      then invertStyle f (computedColor ch) (hd ch) else hd ch)"

subsection \<open>Counting\<close>

text \<open>
  \<open>colorChanges t t'\<close> is the number of elements of \<open>t\<close> whose declared text color differs
  in \<open>t'\<close>, a tree of the same shape; \<open>lightOnDarkCount\<close> is the number of elements below
  the root that are light-on-dark.
\<close>

fun colorChanges :: "node \<Rightarrow> node \<Rightarrow> nat"
  and colorChangesKids :: "node list \<Rightarrow> node list \<Rightarrow> nat" where
  "colorChanges (Element tag st kids) (Element tag' st' kids') =
     (if color st' \<noteq> color st then 1 else 0) + colorChangesKids kids kids'"
| "colorChanges (Text c) m = 0"
| "colorChanges (Comment c) m = 0"
| "colorChanges (Element tag st kids) (Text c) = 0"
| "colorChanges (Element tag st kids) (Comment c) = 0"
| "colorChangesKids (n # ns) (m # ms) = colorChanges n m + colorChangesKids ns ms"
| "colorChangesKids [] ms = 0"
| "colorChangesKids (n # ns) [] = 0"

fun lightOnDarkNode :: "resolver \<Rightarrow> style list \<Rightarrow> node \<Rightarrow> nat" where
  "lightOnDarkNode f anc (Element tag st kids) =
     (if isLightOnDark f (computedColor (st # anc)) (getEffectiveBackgroundColor (st # anc))
      then 1 else 0) + sum_list (map (lightOnDarkNode f (st # anc)) kids)"
| "lightOnDarkNode f anc (Text c) = 0"
| "lightOnDarkNode f anc (Comment c) = 0"

fun lightOnDarkCount :: "resolver \<Rightarrow> style list \<Rightarrow> node \<Rightarrow> nat" where
  "lightOnDarkCount f ctx (Element tag st kids) = sum_list (map (lightOnDarkNode f (st # ctx)) kids)"
| "lightOnDarkCount f ctx n = 0"

subsection \<open>The scenarios\<close>

text \<open>
  A platform that computes black for every color it is asked about, and the trees of
  Scenario C and Scenario D: one element under a plain root.
\<close>

definition blackPlatform :: resolver where
  "blackPlatform css = RGB 0 0 0"

definition yellowOnBlack :: style where
  "yellowOnBlack = \<lparr>color = Some (str ''rgb(255, 255, 0)''),
     backgroundColor = Some (str ''rgb(0, 0, 0)''), visibility = None, opacity = None\<rparr>"

definition grayOnGray :: style where
  "grayOnGray = \<lparr>color = Some (str ''rgb(100, 100, 100)''),
     backgroundColor = Some (str ''rgb(120, 120, 120)''), visibility = None, opacity = None\<rparr>"

definition scenarioC :: node where
  "scenarioC = Element (str ''div'') noStyle [Element (str ''span'') yellowOnBlack []]"

definition scenarioD :: node where
  "scenarioD = Element (str ''div'') noStyle [Element (str ''span'') grayOnGray []]"

section \<open>Properties of the whitespace normalizer\<close>

lemma update_kids_append:
  "update_kids (length pre) p f (pre @ n # rest) = pre @ update_at p f n # rest"
  by (induction pre) simp_all

lemma foldl_applyFix_under:
  "foldl applyFix (Element T S (pre @ n # rest)) (under (length pre) fs) =
   Element T S (pre @ foldl applyFix n fs # rest)"
proof (induction fs arbitrary: n)
  case Nil
  show ?case by (simp add: under_def)
next
  case (Cons e fs)
  obtain p x where e: "e = (p, x)" by (cases e)
  have "foldl applyFix (Element T S (pre @ n # rest)) (under (length pre) (e # fs)) =
        foldl applyFix (Element T S (pre @ applyFix n e # rest)) (under (length pre) fs)"
    by (simp add: under_def e applyFix_def update_kids_append)
  then show ?case using Cons.IH [of "applyFix n e"] by simp
qed

lemma applyFix_child:
  "applyFix (Element T S (pre @ Text c # rest)) ([length pre], pos) =
   Element T S (pre @ Text (fixText pos c) # rest)"
  by (simp add: applyFix_def update_kids_append)

lemma foldl_nodesToFix:
  "i = length pre \<Longrightarrow>
   foldl applyFix (Element T S (pre @ rest)) (nodesToFix i prev rest) =
   Element T S (pre @ normKids prev rest)"
proof (induction i prev rest arbitrary: pre T S rule: nodesToFix.induct)
  case (1 i prev)
  show ?case by simp
next
  case (2 i prev c rest)
  have step: "foldl applyFix (Element T S (pre @ Text c # rest))
        (if c = [] \<or> trim c = [] then []
         else (if needsLeadingSpace prev then [([i], Leading)] else []) @
              (if needsTrailingSpace (nextSibling rest) then [([i], Trailing)] else [])) =
        Element T S (pre @ Text (fixedText prev c (nextSibling rest)) # rest)"
    using "2.prems" by (simp add: applyFix_child fixedText_def)
  have "foldl applyFix (Element T S ((pre @ [Text (fixedText prev c (nextSibling rest))]) @ rest))
          (nodesToFix (Suc i) (Some (Text c)) rest) =
        Element T S ((pre @ [Text (fixedText prev c (nextSibling rest))]) @ normKids (Some (Text c)) rest)"
    by (rule "2.IH") (simp add: "2.prems")
  with step show ?case by simp
next
  case (3 i prev tag st kids rest)
  have inner: "foldl applyFix (Element tag st ([] @ kids)) (nodesToFix 0 None kids) =
               Element tag st ([] @ normKids None kids)"
    by (rule "3.IH"(1)) simp
  have step: "foldl applyFix (Element T S (pre @ Element tag st kids # rest))
                (under i (nodesToFix 0 None kids)) =
              Element T S (pre @ Element tag st (normKids None kids) # rest)"
    using foldl_applyFix_under [of T S pre "Element tag st kids" rest "nodesToFix 0 None kids"]
      inner "3.prems" by simp
  have "foldl applyFix (Element T S ((pre @ [Element tag st (normKids None kids)]) @ rest))
          (nodesToFix (Suc i) (Some (Element tag st kids)) rest) =
        Element T S ((pre @ [Element tag st (normKids None kids)]) @
          normKids (Some (Element tag st kids)) rest)"
    by (rule "3.IH"(2)) (simp add: "3.prems")
  with step show ?case by simp
next
  case (4 i prev c rest)
  have "foldl applyFix (Element T S ((pre @ [Comment c]) @ rest))
          (nodesToFix (Suc i) (Some (Comment c)) rest) =
        Element T S ((pre @ [Comment c]) @ normKids (Some (Comment c)) rest)"
    by (rule "4.IH") (simp add: "4.prems")
  then show ?case by simp
qed

lemma normalizeWhitespace_Element:
  "normalizeWhitespace (Element tag st kids) = Element tag st (normKids None kids)"
  using foldl_nodesToFix [of 0 "[]" tag st kids None] by simp

lemma all_dropWhile: "(\<forall>x \<in> set (dropWhile P s). P x) \<longleftrightarrow> (\<forall>x \<in> set s. P x)"
  by (induction s) auto

lemma trim_empty_iff: "trim s = [] \<longleftrightarrow> (\<forall>c \<in> set s. is_ws c)"
  by (simp add: trim_def dropWhile_eq_Nil_conv all_dropWhile)

lemma starts_ws_simps:
  "starts_ws [] = False" "starts_ws (c # s) = is_ws c"
  "s \<noteq> [] \<Longrightarrow> starts_ws (s @ t) = starts_ws s"
  by (cases s; simp add: starts_ws_def)+

lemma ends_ws_simps:
  "ends_ws [] = False" "ends_ws (s @ [c]) = is_ws c"
  "s \<noteq> [] \<Longrightarrow> ends_ws (c # s) = ends_ws s"
  by (cases s rule: rev_cases; simp add: ends_ws_def)+

lemma is_ws_space: "is_ws 32"
  by (simp add: is_ws_def)

lemma fixedText_skip:
  "c = [] \<or> trim c = [] \<Longrightarrow> fixedText prev c nxt = c"
  by (simp add: fixedText_def)

lemma fixedText_shape:
  assumes "c \<noteq> []" "trim c \<noteq> []"
  shows "fixedText prev c nxt =
    (if needsLeadingSpace prev \<and> \<not> starts_ws c then [32] else []) @ c @
    (if needsTrailingSpace nxt \<and> \<not> ends_ws c then [32] else [])"
  using assms by (simp add: fixedText_def fixText_def Let_def ends_ws_simps)

lemma fixedText_starts: "starts_ws c \<Longrightarrow> starts_ws (fixedText prev c nxt)"
  by (cases "c = [] \<or> trim c = []")
     (auto simp: fixedText_skip fixedText_shape starts_ws_simps is_ws_space)

lemma fixedText_ends: "ends_ws c \<Longrightarrow> ends_ws (fixedText prev c nxt)"
  by (cases "c = [] \<or> trim c = []")
     (auto simp: fixedText_skip fixedText_shape ends_ws_simps is_ws_space)

lemma edge_le_fixedText: "edge_le (Some (Text c)) (Some (Text (fixedText prev c nxt)))"
  by (simp add: fixedText_starts fixedText_ends)

lemma edge_le_Leading: "edge_le p p' \<Longrightarrow> needsLeadingSpace p' \<Longrightarrow> needsLeadingSpace p"
  by (induction p p' rule: edge_le.induct) auto

lemma edge_le_Trailing: "edge_le n n' \<Longrightarrow> needsTrailingSpace n' \<Longrightarrow> needsTrailingSpace n"
  by (induction n n' rule: edge_le.induct) auto

lemma fixedText_idem:
  assumes p: "edge_le p p'" and n: "edge_le n n'"
  shows "fixedText p' (fixedText p c n) n' = fixedText p c n"
proof (cases "c = [] \<or> trim c = []")
  case True
  then show ?thesis by (auto simp: fixedText_skip)
next
  case False
  let ?c = "fixedText p c n"
  have shape: "?c = (if needsLeadingSpace p \<and> \<not> starts_ws c then [32] else []) @ c @
    (if needsTrailingSpace n \<and> \<not> ends_ws c then [32] else [])"
    using False by (simp add: fixedText_shape)
  have ne: "?c \<noteq> []" "trim ?c \<noteq> []"
    using False by (auto simp: shape trim_empty_iff)
  have l: "needsLeadingSpace p' \<Longrightarrow> starts_ws ?c"
    using edge_le_Leading [OF p] False
    by (auto simp: shape starts_ws_simps is_ws_space)
  have t: "needsTrailingSpace n' \<Longrightarrow> ends_ws ?c"
    using edge_le_Trailing [OF n] False
    by (auto simp: shape ends_ws_simps is_ws_space
             simp flip: append_assoc)
  show ?thesis
    using l t by (subst fixedText_shape [OF ne]) auto
qed

lemma edge_le_nextSibling: "edge_le (nextSibling rest) (nextSibling (normKids p rest))"
  by (induction p rest rule: normKids.induct)
     (simp_all add: nextSibling_def fixedText_starts fixedText_ends)

lemma normKids_idem:
  "edge_le prev prev' \<Longrightarrow> normKids prev' (normKids prev ks) = normKids prev ks"
proof (induction prev ks arbitrary: prev' rule: normKids.induct)
  case (1 prev)
  show ?case by simp
next
  case (2 prev c rest)
  show ?case
    using "2.prems" "2.IH" [OF edge_le_fixedText]
    by (simp add: fixedText_idem edge_le_nextSibling)
next
  case (3 prev tag st kids rest)
  show ?case
    using "3.IH"(1) [of None] "3.IH"(2) [of "Some (Element tag st (normKids None kids))"]
    by simp
next
  case (4 prev c rest)
  show ?case using "4.IH" [of "Some (Comment c)"] by simp
qed

lemma normKids_append:
  "\<exists>pre'. length pre' = length pre \<and>
     normKids prev (pre @ rest) =
     pre' @ normKids (if pre = [] then prev else Some (last pre)) rest"
proof (induction pre arbitrary: prev)
  case Nil
  show ?case by simp
next
  case (Cons n pre)
  obtain pre' where pre': "length pre' = length pre"
    "normKids (Some n) (pre @ rest) =
     pre' @ normKids (if pre = [] then Some n else Some (last pre)) rest"
    using Cons.IH [of "Some n"] by blast
  obtain n' where "normKids prev ((n # pre) @ rest) = n' # normKids (Some n) (pre @ rest)"
    by (cases n) simp_all
  then have "length (n' # pre') = length (n # pre) \<and> normKids prev ((n # pre) @ rest) =
      (n' # pre') @ normKids (if n # pre = [] then prev else Some (last (n # pre))) rest"
    using pre' by simp
  then show ?case by blast
qed

lemma node_at_normKids:
  "node_at p n = Some (Element tag st ks) \<Longrightarrow> n = Element T S kids \<Longrightarrow>
     node_at p (Element T S (normKids None kids)) = Some (Element tag st (normKids None ks))"
  "kid_at i p kids = Some (Element tag st ks) \<Longrightarrow>
     kid_at i p (normKids prev kids) = Some (Element tag st (normKids None ks))"
proof (induction p n and i p kids arbitrary: T S kids and prev rule: node_at_kid_at.induct)
  case (6 p n rest)
  then show ?case by (cases n; cases p) auto
next
  case (7 i p n rest)
  then show ?case by (cases n) auto
qed auto

lemma not_ends_ws_trim: "a \<noteq> [] \<Longrightarrow> \<not> ends_ws a \<Longrightarrow> trim a \<noteq> []"
  by (cases a rule: rev_cases) (auto simp: trim_empty_iff ends_ws_simps)

lemma not_starts_ws_trim: "b \<noteq> [] \<Longrightarrow> \<not> starts_ws b \<Longrightarrow> trim b \<noteq> []"
  by (cases b) (auto simp: trim_empty_iff starts_ws_simps)

text \<open>
  C1. The whitespace normalizer is idempotent: on every tree, a second pass of
  \<open>normalizeWhitespace\<close> over the result of a first pass changes nothing, so the tree
  after two passes is the tree after one.
\<close>

theorem normalizeWhitespace_idempotent:
  "normalizeWhitespace (normalizeWhitespace t) = normalizeWhitespace t"
  by (cases t)
     (simp_all add: normalizeWhitespace_Element normKids_idem
        del: normalizeWhitespace.simps(1))

text \<open>
  C2, as amended. Two adjacent elements that each hold a single text leaf, as in
  \<^verbatim>\<open><span>Hello</span><em>world</em>\<close>, come out of the pass unchanged, whatever their
  tags and texts: each leaf is the only child of its element, it has no previous and no
  next sibling, and the pass looks at nothing else. No space appears between the two
  words.
\<close>

theorem normalizeWhitespace_lone_leaves:
  "normalizeWhitespace (Element T S [Element t1 s1 [Text a], Element t2 s2 [Text b]]) =
     Element T S [Element t1 s1 [Text a], Element t2 s2 [Text b]]"
  by (simp add: normalizeWhitespace_Element fixedText_def nextSibling_def
        del: normalizeWhitespace.simps(1))

text \<open>
  C2, as stated, fails on Scenario A: after the pass over
  \<^verbatim>\<open><span>Hello</span><em>world</em>\<close> neither leaf has gained a space, and the text of
  the tree is still \<^verbatim>\<open>Helloworld\<close>.
\<close>

theorem scenario_A_no_space:
  "normalizeWhitespace
     (Element (str ''div'') noStyle
        [Element (str ''span'') noStyle [Text (str ''Hello'')],
         Element (str ''em'') noStyle [Text (str ''world'')]]) =
   Element (str ''div'') noStyle
        [Element (str ''span'') noStyle [Text (str ''Hello'')],
         Element (str ''em'') noStyle [Text (str ''world'')]]
   \<and> textOf (normalizeWhitespace
     (Element (str ''div'') noStyle
        [Element (str ''span'') noStyle [Text (str ''Hello'')],
         Element (str ''em'') noStyle [Text (str ''world'')]])) = str ''Helloworld''"
  by (simp add: under_def nextSibling_def str_def)

text \<open>
  C9. Two text leaves that are adjacent siblings, the first ending and the second
  beginning with a character that is not whitespace: one pass appends a space to the
  first and prepends a space to the second, so two spaces stand at their boundary. The
  element that holds them may be anywhere in the tree (at path \<open>p\<close>), with any siblings
  \<open>pre\<close> before and \<open>post\<close> after the two leaves; \<open>x\<close> and \<open>y\<close> are what the pass adds at
  the two outer ends.
\<close>

theorem adjacent_text_leaves_double_space:
  assumes "node_at p t = Some (Element tag st (pre @ Text a # Text b # post))"
    and "a \<noteq> []" and "\<not> ends_ws a" and "b \<noteq> []" and "\<not> starts_ws b"
  shows "\<exists>pre' post' x y. length pre' = length pre \<and>
     node_at p (normalizeWhitespace t) =
       Some (Element tag st (pre' @ Text (x @ a @ [32]) # Text (32 # b @ y) # post'))"
proof -
  let ?ks = "pre @ Text a # Text b # post"
  obtain T S kids where t: "t = Element T S kids"
    using assms(1) by (cases t; cases p) auto
  have at: "node_at p (normalizeWhitespace t) = Some (Element tag st (normKids None ?ks))"
    using node_at_normKids(1) [OF assms(1) t]
    by (simp add: t normalizeWhitespace_Element del: normalizeWhitespace.simps(1))
  obtain pre' q where pre': "length pre' = length pre"
    "normKids None ?ks = pre' @ normKids q (Text a # Text b # post)"
    using normKids_append [of pre None "Text a # Text b # post"] by blast
  have ta: "a \<noteq> []" "trim a \<noteq> []"
    using assms(2,3) by (simp_all add: not_ends_ws_trim)
  have tb: "b \<noteq> []" "trim b \<noteq> []"
    using assms(4,5) by (simp_all add: not_starts_ws_trim)
  have fa: "fixedText q a (Some (Text b)) =
      (if needsLeadingSpace q \<and> \<not> starts_ws a then [32] else []) @ a @ [32]"
    using assms(3,5) by (simp add: fixedText_shape [OF ta])
  have fb: "fixedText (Some (Text a)) b (nextSibling post) =
      32 # b @ (if needsTrailingSpace (nextSibling post) \<and> \<not> ends_ws b then [32] else [])"
    using assms(3,5) by (simp add: fixedText_shape [OF tb])
  let ?x = "if needsLeadingSpace q \<and> \<not> starts_ws a then [32] else []"
  let ?y = "if needsTrailingSpace (nextSibling post) \<and> \<not> ends_ws b then [32] else []"
  let ?post = "normKids (Some (Text b)) post"
  have "normKids None ?ks = pre' @ Text (?x @ a @ [32]) # Text (32 # b @ ?y) # ?post"
    using pre'(2) fa fb by (simp add: nextSibling_def)
  with at pre'(1) have "length pre' = length pre \<and>
     node_at p (normalizeWhitespace t) =
       Some (Element tag st (pre' @ Text (?x @ a @ [32]) # Text (32 # b @ ?y) # ?post))"
    by simp
  then show ?thesis
    by (intro exI [of _ pre'] exI [of _ ?post] exI [of _ ?x] exI [of _ ?y])
qed

theorem adjacent_text_leaves_witness:
  "str ''a'' \<noteq> [] \<and> \<not> ends_ws (str ''a'') \<and> str ''b'' \<noteq> [] \<and> \<not> starts_ws (str ''b'') \<and>
   (\<exists>pre' post' x y. length pre' = length ([]::node list) \<and>
     node_at [] (normalizeWhitespace (Element (str ''p'') noStyle [Text (str ''a''), Text (str ''b'')])) =
       Some (Element (str ''p'') noStyle
          (pre' @ Text (x @ str ''a'' @ [32]) # Text (32 # str ''b'' @ y) # post')))"
  using adjacent_text_leaves_double_space
    [of "[]" "Element (str ''p'') noStyle [Text (str ''a''), Text (str ''b'')]"
        "str ''p''" noStyle "[]" "str ''a''" "str ''b''" "[]"]
  by (simp add: str_def starts_ws_def ends_ws_def is_ws_def del: normalizeWhitespace.simps(1))

section \<open>Properties of parseColor\<close>

lemma bitLength_le: "n < 2 ^ k \<Longrightarrow> bitLength n \<le> k"
proof (induction k arbitrary: n)
  case 0
  then show ?case by (simp add: bitLength.simps)
next
  case (Suc k)
  show ?case
  proof (cases "n = 0")
    case True
    then show ?thesis by (simp add: bitLength.simps)
  next
    case False
    have "n div 2 < 2 ^ k" using Suc.prems by auto
    then have "bitLength (n div 2) \<le> k" by (rule Suc.IH)
    with False show ?thesis by (subst bitLength.simps) simp
  qed
qed

lemma toDouble_small [simp]: "n < 2 ^ 53 \<Longrightarrow> toDouble n = n"
  by (simp add: toDouble_def bitLength_le)

text \<open>The first integer that \<open>parseInt\<close> cannot return: \<open>2^53 + 1\<close> is rounded to \<open>2^53\<close>.\<close>

lemma bitLength_gt: "2 ^ k \<le> n \<Longrightarrow> k < bitLength n"
proof (induction k arbitrary: n)
  case 0
  then show ?case by (subst bitLength.simps) simp
next
  case (Suc k)
  have "2 ^ k \<le> n div 2" using Suc.prems by auto
  then have "k < bitLength (n div 2)" by (rule Suc.IH)
  moreover have "(0::nat) < 2 ^ Suc k" by simp
  then have "n \<noteq> 0" using Suc.prems by linarith
  ultimately show ?case by (subst bitLength.simps) simp
qed


lemma bitLength_eq: "2 ^ k \<le> n \<Longrightarrow> n < 2 ^ Suc k \<Longrightarrow> bitLength n = Suc k"
  using bitLength_gt [of k n] bitLength_le [of n "Suc k"] by simp

lemma bitLength_example: "bitLength 9007199254740993 = 54"
proof -
  have "(2::nat) ^ 53 \<le> 9007199254740993" "(9007199254740993::nat) < 2 ^ Suc 53"
    by simp_all
  then have "bitLength 9007199254740993 = Suc 53" by (rule bitLength_eq)
  then show ?thesis by simp
qed


lemma toDouble_rounds: "toDouble 9007199254740993 = 9007199254740992"
proof -
  have q: "(9007199254740993::nat) div 2 = 4503599627370496"
    and r: "(9007199254740993::nat) mod 2 = 1"
    by simp_all
  have e: "\<not> odd (4503599627370496::nat)" by simp
  show ?thesis
    unfolding toDouble_def bitLength_example Let_def using q r e by simp
qed

lemma digits_not_prefixed:
  assumes "\<forall>c \<in> set ds. is_digit c"
  shows "take 2 ds \<noteq> str ''0x'' \<and> take 2 ds \<noteq> str ''0X''"
proof -
  have "\<forall>c \<in> set (take 2 ds). is_digit c"
    using assms by (meson in_set_takeD)
  then show ?thesis by (auto simp: str_def is_digit_def)
qed

lemma parseInt_digits:
  assumes "ds \<noteq> []" "\<forall>c \<in> set ds. is_digit c"
  shows "parseInt ds None = Num (real (toDouble (digitsValue 10 ds)))"
proof -
  obtain d rest where ds: "ds = d # rest" using assms(1) by (cases ds) auto
  have d: "is_digit d" using assms(2) ds by simp
  have s0: "dropWhile is_ws ds = ds"
    using d ds by (simp add: is_digit_not_ws)
  have sign: "(case ds of [] \<Rightarrow> 1 | c # _ \<Rightarrow> if c = 45 then - 1 else (1::real)) = 1"
    using d by (auto simp: ds is_digit_def)
  have s1: "(case ds of [] \<Rightarrow> [] | c # r \<Rightarrow> if c = 43 \<or> c = 45 then r else ds) = ds"
    using d by (auto simp: ds is_digit_def)
  have pre: "\<not> (take 2 ds = str ''0x'' \<or> take 2 ds = str ''0X'')"
    using digits_not_prefixed [OF assms(2)] by simp
  have all: "takeWhile (\<lambda>c. digitValue c < 10) ds = ds"
    using assms(2) by (auto simp: takeWhile_eq_all_conv is_digit_def digitValue_def)
  show ?thesis
    unfolding parseInt_def Let_def s0 sign s1
    using pre assms(1) by (simp add: all)
qed

lemma parseInt_dec: "n < 2 ^ 53 \<Longrightarrow> parseInt (dec n) None = Num (real n)"
  by (simp add: parseInt_digits dec_digits digitsValue_dec)

lemma parseColor_serialize:
  assumes "r < 2 ^ 53" and "g < 2 ^ 53" and "b < 2 ^ 53"
  shows "parseColor f (serialize (RGBA r g b a)) = (Num (real r), Num (real g), Num (real b))"
    and "parseColor f (serialize (RGB r g b)) = (Num (real r), Num (real g), Num (real b))"
proof -
  have p: "parseInt (dec r) None = Num (real r)" "parseInt (dec g) None = Num (real g)"
    "parseInt (dec b) None = Num (real b)"
    using assms by (simp_all add: parseInt_dec)
  show "parseColor f (serialize (RGBA r g b a)) = (Num (real r), Num (real g), Num (real b))"
    by (subst parseColor.simps) (simp only: rgbMatch_serialize computed_color.case option.case prod.case p)
  show "parseColor f (serialize (RGB r g b)) = (Num (real r), Num (real g), Num (real b))"
    by (subst parseColor.simps) (simp only: rgbMatch_serialize computed_color.case option.case prod.case p)
qed

text \<open>
  Above the bound the digits are rounded: on \<^verbatim>\<open>rgb(9007199254740993, 0, 0)\<close>, whose red
  channel is \<open>2^53 + 1\<close>, \<open>parseColor\<close> returns \<open>2^53\<close>.
\<close>

lemma parseColor_rounds:
  "parseColor f (serialize (RGB 9007199254740993 0 0)) = (Num 9007199254740992, Num 0, Num 0)"
proof -
  have "parseInt (dec 9007199254740993) None =
      Num (real (toDouble (digitsValue 10 (dec 9007199254740993))))"
    using dec_digits [of 9007199254740993] by (intro parseInt_digits) blast+
  then have "parseInt (dec 9007199254740993) None = Num (real (toDouble 9007199254740993))"
    by (simp only: digitsValue_dec)
  then have r: "parseInt (dec 9007199254740993) None = Num 9007199254740992"
    by (simp only: toDouble_rounds) simp
  have z: "parseInt (dec 0) None = Num 0"
    using parseInt_dec [of 0] by simp
  show ?thesis
    by (subst parseColor.simps) (simp only: rgbMatch_serialize computed_color.case option.case prod.case r z)
qed

text \<open>
  C10. \<open>parseColor\<close> drops the alpha channel: on \<^verbatim>\<open>rgba(r, g, b, a)\<close>, for all channels
  \<open>r\<close>, \<open>g\<close>, \<open>b\<close> written in decimal and every alpha text \<open>a\<close>, it returns \<open>(r, g, b)\<close>,
  and so it does on \<^verbatim>\<open>rgb(r, g, b)\<close>. The branch of the regular expression comes first,
  so the fully transparent \<^verbatim>\<open>rgba(0, 0, 0, 0)\<close> never reaches the branch written for it.
  The channels are below \<open>2^53\<close>, where \<^verbatim>\<open>parseInt\<close> returns the integer it reads; every
  channel of a color, which is at most 255, is.
\<close>

theorem parseColor_drops_alpha:
  assumes "r < 2 ^ 53" and "g < 2 ^ 53" and "b < 2 ^ 53"
  shows "parseColor f (str ''rgba('' @ dec r @ str '', '' @ dec g @ str '', '' @ dec b @
      str '', '' @ a @ str '')'') = (Num (real r), Num (real g), Num (real b))
   \<and> parseColor f (serialize (RGBA r g b a)) = (Num (real r), Num (real g), Num (real b))
   \<and> parseColor f (serialize (RGB r g b)) = (Num (real r), Num (real g), Num (real b))"
  using parseColor_serialize [OF assms] by simp

theorem parseColor_drops_alpha_witness:
  "(255::nat) < 2 ^ 53 \<and> (128::nat) < 2 ^ 53 \<and> (0::nat) < 2 ^ 53
   \<and> parseColor blackPlatform (str ''rgba(255, 128, 0, 0.5)'') = (Num 255, Num 128, Num 0)"
proof -
  have d: "dec 255 = str ''255''" "dec 128 = str ''128''" "dec 0 = str ''0''"
    by (simp_all add: dec.simps str_def)
  have h: "(255::nat) < 2 ^ 53" "(128::nat) < 2 ^ 53" "(0::nat) < 2 ^ 53"
    by simp_all
  have s: "str ''rgba('' @ str ''255'' @ str '', '' @ str ''128'' @ str '', '' @ str ''0'' @
      str '', '' @ str ''0.5'' @ str '')'' = str ''rgba(255, 128, 0, 0.5)''"
    by (simp add: str_def)
  have "parseColor blackPlatform (str ''rgba(255, 128, 0, 0.5)'') =
      (Num (real 255), Num (real 128), Num (real 0))"
    using parseColor_drops_alpha [OF h, of blackPlatform "str ''0.5''"]
    by (simp only: d s)
  then show ?thesis using h by simp
qed

text \<open>
  C3, on the code. \<^verbatim>\<open>parseColor('transparent')\<close> is white, but
  \<^verbatim>\<open>parseColor('rgba(0, 0, 0, 0)')\<close> is black: the regular expression matches the string
  before the comparison with \<^verbatim>\<open>'rgba(0, 0, 0, 0)'\<close> is reached.
\<close>

theorem parseColor_transparent_rgba_black:
  "parseColor f (str ''rgba(0, 0, 0, 0)'') = (Num 0, Num 0, Num 0)
   \<and> parseColor f (str ''transparent'') = (Num 255, Num 255, Num 255)"
  by (simp add: parseColor.simps str_def rgbMatchAt_def optional_a_def digits1_def
        is_digit_def is_ws_def parseInt_def digitValue_def digitsValue_def)

section \<open>Properties of the luminance\<close>

lemma calculateLuminance_Num:
  "calculateLuminance (Num r, Num g, Num b) = Num (wcag_luminance r g b)"
  by (simp add: calculateLuminance_def wcag_luminance_def wcag_channel_def Let_def)

lemma wcag_channel_bounds:
  assumes "0 \<le> c" "c \<le> 255"
  shows "0 \<le> wcag_channel c \<and> wcag_channel c \<le> 1"
proof (cases "c / 255 \<le> 0.03928")
  case True
  with assms show ?thesis by (simp add: wcag_channel_def)
next
  case False
  have "0 \<le> (c / 255 + 0.055) / 1.055" "(c / 255 + 0.055) / 1.055 \<le> 1"
    using assms by simp_all
  then have "((c / 255 + 0.055) / 1.055) powr 2.4 \<le> 1"
    by (intro powr_le1) simp_all
  with False show ?thesis by (simp add: wcag_channel_def)
qed

lemma wcag_channel_0: "wcag_channel 0 = 0"
  by (simp add: wcag_channel_def)

lemma wcag_channel_255: "wcag_channel 255 = 1"
  by (simp add: wcag_channel_def)

lemma wcag_luminance_bounds:
  assumes "0 \<le> r" "r \<le> 255" "0 \<le> g" "g \<le> 255" "0 \<le> b" "b \<le> 255"
  shows "0 \<le> wcag_luminance r g b \<and> wcag_luminance r g b \<le> 1"
proof -
  have r: "0 \<le> wcag_channel r \<and> wcag_channel r \<le> 1" using assms by (intro wcag_channel_bounds)
  have g: "0 \<le> wcag_channel g \<and> wcag_channel g \<le> 1" using assms by (intro wcag_channel_bounds)
  have b: "0 \<le> wcag_channel b \<and> wcag_channel b \<le> 1" using assms by (intro wcag_channel_bounds)
  show ?thesis using r g b by (simp add: wcag_luminance_def)
qed

lemma wcag_gray: "wcag_luminance c c c = wcag_channel c"
  by (simp add: wcag_luminance_def algebra_simps)

lemma powr_between:
  assumes "0 < x" "x \<le> (1::real)"
  shows "x ^ 3 \<le> x powr 2.4 \<and> x powr 2.4 \<le> x ^ 2"
proof -
  have "x powr 3 \<le> x powr 2.4" using assms by (intro powr_mono') simp_all
  moreover have "x powr 2.4 \<le> x powr 2" using assms by (intro powr_mono') simp_all
  moreover have "x powr 3 = x ^ 3" "x powr 2 = x ^ 2"
    using assms by simp_all
  ultimately show ?thesis by simp
qed

lemma wcag_channel_100: "0.07 \<le> wcag_channel 100 \<and> wcag_channel 100 \<le> 0.18"
proof -
  let ?x = "(100 / 255 + 0.055) / 1.055 :: real"
  have x: "0 < ?x" "?x \<le> 1" by simp_all
  have "wcag_channel 100 = ?x powr 2.4" by (simp add: wcag_channel_def)
  moreover have "0.07 \<le> ?x ^ 3" by (simp add: power3_eq_cube)
  moreover have "?x ^ 2 \<le> 0.18" by (simp add: power2_eq_square)
  ultimately show ?thesis using powr_between [OF x] by linarith
qed

lemma wcag_channel_120: "wcag_channel 100 \<le> wcag_channel 120 \<and> wcag_channel 120 \<le> 0.25"
proof -
  let ?x = "(100 / 255 + 0.055) / 1.055 :: real"
  let ?y = "(120 / 255 + 0.055) / 1.055 :: real"
  have y: "0 < ?y" "?y \<le> 1" by simp_all
  have "?x powr 2.4 \<le> ?y powr 2.4" by (intro powr_mono2) simp_all
  moreover have "wcag_channel 100 = ?x powr 2.4" "wcag_channel 120 = ?y powr 2.4"
    by (simp_all add: wcag_channel_def)
  moreover have "?y ^ 2 \<le> 0.25" by (simp add: power2_eq_square)
  ultimately show ?thesis using powr_between [OF y] by linarith
qed

lemma lum_yellow: "wcag_luminance 255 255 0 = 0.9278"
  by (simp add: wcag_luminance_def wcag_channel_0 wcag_channel_255)

text \<open>
  C6. \<open>calculateLuminance\<close> is the WCAG relative luminance as the specification words it
  (\<open>wcag_luminance\<close>); for channels in \<open>[0,255]\<close> it lies in \<open>[0,1]\<close>; it is \<open>0\<close> on
  \<open>(0,0,0)\<close> and \<open>1\<close> on \<open>(255,255,255)\<close>. Numbers are exact reals here.
\<close>

theorem calculateLuminance_wcag:
  "calculateLuminance (Num r, Num g, Num b) = Num (wcag_luminance r g b)
   \<and> (0 \<le> r \<and> r \<le> 255 \<and> 0 \<le> g \<and> g \<le> 255 \<and> 0 \<le> b \<and> b \<le> 255 \<longrightarrow>
        (\<exists>l. calculateLuminance (Num r, Num g, Num b) = Num l \<and> 0 \<le> l \<and> l \<le> 1))
   \<and> calculateLuminance (Num 0, Num 0, Num 0) = Num 0
   \<and> calculateLuminance (Num 255, Num 255, Num 255) = Num 1"
  using wcag_luminance_bounds [of r g b]
  by (simp add: calculateLuminance_Num wcag_gray wcag_channel_0 wcag_channel_255)

theorem calculateLuminance_wcag_witness:
  "(0::real) \<le> 255 \<and> (0::real) \<le> 0 \<and>
   (\<exists>l. calculateLuminance (Num 255, Num 255, Num 0) = Num l \<and> 0 \<le> l \<and> l \<le> 1)"
proof -
  have h: "(0::real) \<le> 255 \<and> (255::real) \<le> 255 \<and> (0::real) \<le> 255 \<and> (255::real) \<le> 255 \<and>
      (0::real) \<le> 0 \<and> (0::real) \<le> 255"
    by simp
  from calculateLuminance_wcag [of 255 255 0] h
  have "\<exists>l. calculateLuminance (Num 255, Num 255, Num 0) = Num l \<and> 0 \<le> l \<and> l \<le> 1"
    by blast
  then show ?thesis by simp
qed

section \<open>Properties of getEffectiveBackgroundColor\<close>




section \<open>The passes of the style processor, element by element\<close>

lemma foldl_applyInversion_under:
  "foldl (applyInversion f) (Element T S (pre @ n # rest)) (under (length pre) fs) =
   Element T S (pre @ foldl (applyInversion f) n fs # rest)"
proof (induction fs arbitrary: n)
  case Nil
  show ?case by (simp add: under_def)
next
  case (Cons e fs)
  obtain p x where e: "e = (p, x)" by (cases e)
  have "foldl (applyInversion f) (Element T S (pre @ n # rest)) (under (length pre) (e # fs)) =
        foldl (applyInversion f) (Element T S (pre @ applyInversion f n e # rest))
          (under (length pre) fs)"
    by (simp add: under_def e applyInversion_def update_kids_append)
  then show ?case using Cons.IH [of "applyInversion f n e"] by simp
qed

lemma applyInversion_child:
  "applyInversion f (Element T S (pre @ Element tag st kids # rest)) ([length pre], c, b) =
   Element T S (pre @ Element tag (invertStyle f c st) kids # rest)"
  by (simp add: applyInversion_def update_kids_append)

lemma foldl_elementsToInvert:
  "i = length pre \<Longrightarrow>
   foldl (applyInversion f) (Element T S (pre @ rest)) (elementsToInvert f anc i rest) =
   Element T S (pre @ map (invertNode f anc) rest)"
proof (induction f anc i rest arbitrary: pre T S rule: elementsToInvert.induct)
  case (1 f anc i)
  show ?case by simp
next
  case (2 f anc i tag st kids rest)
  let ?st = "if isLightOnDark f (computedColor (st # anc)) (getEffectiveBackgroundColor (st # anc))
        then invertStyle f (computedColor (st # anc)) st else st"
  have own: "foldl (applyInversion f) (Element T S (pre @ Element tag st kids # rest))
        (let textColor = computedColor (st # anc);
             bgColor = getEffectiveBackgroundColor (st # anc)
         in if isLightOnDark f textColor bgColor
            then [([i], textColor, computedBackgroundColor st)] else []) =
      Element T S (pre @ Element tag ?st kids # rest)"
    using "2.prems" by (simp add: applyInversion_child Let_def)
  have inner: "foldl (applyInversion f) (Element tag ?st ([] @ kids))
        (elementsToInvert f (st # anc) 0 kids) =
      Element tag ?st ([] @ map (invertNode f (st # anc)) kids)"
    by (rule "2.IH"(1)) simp
  have nested: "foldl (applyInversion f) (Element T S (pre @ Element tag ?st kids # rest))
        (under i (elementsToInvert f (st # anc) 0 kids)) =
      Element T S (pre @ invertNode f anc (Element tag st kids) # rest)"
    using foldl_applyInversion_under [of f T S pre "Element tag ?st kids" rest
        "elementsToInvert f (st # anc) 0 kids"] inner "2.prems"
    by simp
  have "foldl (applyInversion f)
        (Element T S ((pre @ [invertNode f anc (Element tag st kids)]) @ rest))
        (elementsToInvert f anc (Suc i) rest) =
      Element T S ((pre @ [invertNode f anc (Element tag st kids)]) @ map (invertNode f anc) rest)"
    by (rule "2.IH"(2)) (simp add: "2.prems")
  with own nested show ?case by (simp del: invertNode.simps)
next
  case (3 f anc i c rest)
  have "foldl (applyInversion f) (Element T S ((pre @ [Text c]) @ rest))
        (elementsToInvert f anc (Suc i) rest) =
      Element T S ((pre @ [Text c]) @ map (invertNode f anc) rest)"
    by (rule "3.IH") (simp add: "3.prems")
  then show ?case by simp
next
  case (4 f anc i c rest)
  have "foldl (applyInversion f) (Element T S ((pre @ [Comment c]) @ rest))
        (elementsToInvert f anc (Suc i) rest) =
      Element T S ((pre @ [Comment c]) @ map (invertNode f anc) rest)"
    by (rule "4.IH") (simp add: "4.prems")
  then show ?case by simp
qed

lemma invertColorsForPDF_Element:
  "invertColorsForPDF f ctx (Element T S kids) = Element T S (map (invertNode f (S # ctx)) kids)"
  using foldl_elementsToInvert [of 0 "[]" f T S kids "S # ctx"] by simp

lemma chain_kid_nth:
  "chain_kid anc i p kids = (if i < length kids then chain_at anc p (kids ! i) else None)"
proof (induction kids arbitrary: i)
  case Nil
  show ?case by simp
next
  case (Cons n kids)
  show ?case using Cons.IH by (cases i) simp_all
qed

lemma chain_at_Element:
  "chain_at ctx (i # p) (Element T S kids) =
     (if i < length kids then chain_at (S # ctx) p (kids ! i) else None)"
  by (simp add: chain_kid_nth)

lemma chain_at_SomeE:
  assumes "chain_at ctx p n = Some ch"
  obtains tag st kids where "n = Element tag st kids"
    and "p = [] \<longrightarrow> ch = st # ctx"
    and "\<And>i q. p = i # q \<Longrightarrow> i < length kids \<and> chain_at (st # ctx) q (kids ! i) = Some ch"
  using assms by (cases n; cases p) (auto simp: chain_kid_nth split: if_splits)

lemma sameColours_refl: "sameColours s s"
  by (simp add: sameColours_def)

lemma blackened_refl: "blackened s s"
  by (simp add: blackened_def)

lemma sameColours_visibleStyle: "sameColours st (visibleStyle anc st)"
  by (simp add: sameColours_def visibleStyle_def Let_def)

lemma blackened_contrastStyle: "blackened st (contrastStyle f anc st)"
  by (simp add: blackened_def contrastStyle_def)

lemma chain_at_invertNode:
  "chain_at anc p n = Some ch \<Longrightarrow>
   \<exists>ch'. chain_at anc' p (invertNode f anc n) = Some ch' \<and> hd ch' = invertedHead f ch"
proof (induction p arbitrary: n anc anc')
  case Nil
  then show ?case
    by (elim chain_at_SomeE) (simp add: invertedHead_def)
next
  case (Cons i q)
  from Cons.prems obtain tag st kids where n: "n = Element tag st kids"
    and i: "i < length kids" and at: "chain_at (st # anc) q (kids ! i) = Some ch"
    by (elim chain_at_SomeE) auto
  from Cons.IH [OF at] show ?case
    by (simp add: n chain_kid_nth i)
qed

lemma chain_at_visibleNode:
  "chain_at anc1 p n = Some ch \<Longrightarrow> list_all2 sameColours anc1 anc \<Longrightarrow>
   \<exists>ch'. chain_at anc p (visibleNode anc n) = Some ch' \<and> list_all2 sameColours ch ch'"
proof (induction p arbitrary: n anc1 anc)
  case Nil
  then show ?case
    by (elim chain_at_SomeE) (simp add: sameColours_visibleStyle)
next
  case (Cons i q)
  from Cons.prems(1) obtain tag st kids where n: "n = Element tag st kids"
    and i: "i < length kids" and at: "chain_at (st # anc1) q (kids ! i) = Some ch"
    by (elim chain_at_SomeE) auto
  have "list_all2 sameColours (st # anc1) (visibleStyle anc st # anc)"
    using Cons.prems(2) by (simp add: sameColours_visibleStyle)
  from Cons.IH [OF at this] show ?case
    by (simp add: n chain_kid_nth i)
qed

lemma chain_at_contrastNode:
  "chain_at anc1 p n = Some ch \<Longrightarrow> list_all2 blackened anc1 anc \<Longrightarrow>
   \<exists>ch'. chain_at anc p (contrastNode f anc n) = Some ch' \<and> list_all2 blackened ch ch'"
proof (induction p arbitrary: n anc1 anc)
  case Nil
  then show ?case
    by (elim chain_at_SomeE) (simp add: blackened_contrastStyle)
next
  case (Cons i q)
  from Cons.prems(1) obtain tag st kids where n: "n = Element tag st kids"
    and i: "i < length kids" and at: "chain_at (st # anc1) q (kids ! i) = Some ch"
    by (elim chain_at_SomeE) auto
  have "list_all2 blackened (st # anc1) (contrastStyle f anc st # anc)"
    using Cons.prems(2) by (simp add: blackened_contrastStyle)
  from Cons.IH [OF at this] show ?case
    by (simp add: n chain_kid_nth i)
qed

lemma list_all2_sameColours_refl: "list_all2 sameColours ch ch"
  by (simp add: list_all2_refl sameColours_refl)

lemma list_all2_blackened_refl: "list_all2 blackened ch ch"
  by (simp add: list_all2_refl blackened_refl)

lemma chain_at_invertColorsForPDF:
  assumes "chain_at ctx p t = Some ch" "p \<noteq> []"
  shows "\<exists>ch'. chain_at ctx p (invertColorsForPDF f ctx t) = Some ch' \<and> hd ch' = invertedHead f ch"
proof -
  obtain i q where p: "p = i # q" using assms(2) by (cases p) auto
  from assms(1) obtain T S kids where t: "t = Element T S kids"
    and i: "i < length kids" and at: "chain_at (S # ctx) q (kids ! i) = Some ch"
    by (elim chain_at_SomeE) (auto simp: p)
  from chain_at_invertNode [OF at, of "S # ctx" f] show ?thesis
    by (simp add: t p invertColorsForPDF_Element chain_kid_nth i
          del: invertColorsForPDF.simps)
qed

lemma chain_at_ensureTextVisibility:
  assumes "chain_at ctx p t = Some ch"
  shows "\<exists>ch'. chain_at ctx p (ensureTextVisibility ctx t) = Some ch' \<and> list_all2 sameColours ch ch'"
proof (cases p)
  case Nil
  with assms show ?thesis
    by (elim chain_at_SomeE) (simp add: list_all2_sameColours_refl sameColours_refl)
next
  case (Cons i q)
  from assms obtain T S kids where t: "t = Element T S kids"
    and i: "i < length kids" and at: "chain_at (S # ctx) q (kids ! i) = Some ch"
    by (elim chain_at_SomeE) (auto simp: Cons)
  from chain_at_visibleNode [OF at list_all2_sameColours_refl] show ?thesis
    by (simp add: t Cons chain_kid_nth i)
qed

lemma chain_at_fixContrastIssues:
  assumes "chain_at ctx p t = Some ch"
  shows "\<exists>ch'. chain_at ctx p (fixContrastIssues f ctx t) = Some ch' \<and> list_all2 blackened ch ch'"
proof (cases p)
  case Nil
  with assms show ?thesis
    by (elim chain_at_SomeE) (simp add: list_all2_blackened_refl blackened_refl)
next
  case (Cons i q)
  from assms obtain T S kids where t: "t = Element T S kids"
    and i: "i < length kids" and at: "chain_at (S # ctx) q (kids ! i) = Some ch"
    by (elim chain_at_SomeE) (auto simp: Cons)
  from chain_at_contrastNode [OF at list_all2_blackened_refl] show ?thesis
    by (simp add: t Cons chain_kid_nth i)
qed

lemma blackened_backgroundLoop:
  "list_all2 blackened c1 c2 \<Longrightarrow> backgroundLoop c2 d = backgroundLoop c1 d"
proof (induction c1 c2 arbitrary: d rule: list_all2_induct)
  case Nil
  show ?case by simp
next
  case (Cons s1 c1 s2 c2)
  have "computedBackgroundColor s2 = computedBackgroundColor s1"
    using Cons.hyps(1) by (simp add: blackened_def computedBackgroundColor_def)
  then show ?case using Cons.IH by (simp add: Let_def)
qed

lemma blackened_computedColor:
  "list_all2 blackened c1 c2 \<Longrightarrow>
   computedColor c2 = computedColor c1 \<or> computedColor c2 = str ''#000000''"
proof (induction c1 c2 rule: list_all2_induct)
  case Nil
  show ?case by simp
next
  case (Cons s1 c1 s2 c2)
  have "color s2 = color s1 \<or> color s2 = Some (str ''#000000'')"
    using Cons.hyps(1) by (simp add: blackened_def)
  then show ?case using Cons.IH by (auto split: option.splits)
qed

lemma lowContrast_cong:
  "computedColor c2 = computedColor c1 \<Longrightarrow>
   getEffectiveBackgroundColor c2 = getEffectiveBackgroundColor c1 \<Longrightarrow>
   lowContrast f c2 = lowContrast f c1"
  by (simp add: lowContrast_def)

lemma contrastStyle_black:
  assumes rel: "list_all2 blackened (st # anc1) (st # anc)" and low: "lowContrast f (st # anc1)"
  shows "computedColor (contrastStyle f anc st # anc) = str ''#000000''"
proof (cases "lowContrast f (st # anc)")
  case True
  then show ?thesis by (simp add: contrastStyle_def)
next
  case False
  have bg: "getEffectiveBackgroundColor (st # anc) = getEffectiveBackgroundColor (st # anc1)"
    using blackened_backgroundLoop [OF rel] by (simp add: getEffectiveBackgroundColor_def)
  have "computedColor (st # anc) \<noteq> computedColor (st # anc1)"
    using False low lowContrast_cong [OF _ bg] by auto
  then have "computedColor (st # anc) = str ''#000000''"
    using blackened_computedColor [OF rel] by simp
  with False show ?thesis by (simp add: contrastStyle_def)
qed

lemma contrastNode_lowContrast:
  "chain_at anc1 p n = Some ch \<Longrightarrow> list_all2 blackened anc1 anc \<Longrightarrow> lowContrast f ch \<Longrightarrow>
   \<exists>ch'. chain_at anc p (contrastNode f anc n) = Some ch' \<and> computedColor ch' = str ''#000000''"
proof (induction p arbitrary: n anc1 anc)
  case Nil
  from Nil.prems(1) obtain tag st kids where n: "n = Element tag st kids" and ch: "ch = st # anc1"
    by (elim chain_at_SomeE) auto
  have "list_all2 blackened (st # anc1) (st # anc)"
    using Nil.prems(2) by (simp add: blackened_refl)
  from contrastStyle_black [OF this] Nil.prems(3) show ?case
    by (simp add: n ch)
next
  case (Cons i q)
  from Cons.prems(1) obtain tag st kids where n: "n = Element tag st kids"
    and i: "i < length kids" and at: "chain_at (st # anc1) q (kids ! i) = Some ch"
    by (elim chain_at_SomeE) auto
  have "list_all2 blackened (st # anc1) (contrastStyle f anc st # anc)"
    using Cons.prems(2) by (simp add: blackened_contrastStyle)
  from Cons.IH [OF at this Cons.prems(3)] show ?case
    by (simp add: n chain_kid_nth i)
qed

lemma fixContrastIssues_lowContrast:
  assumes "chain_at ctx p t = Some ch" "p \<noteq> []" "lowContrast f ch"
  shows "\<exists>ch'. chain_at ctx p (fixContrastIssues f ctx t) = Some ch' \<and>
           computedColor ch' = str ''#000000''"
proof -
  obtain i q where p: "p = i # q" using assms(2) by (cases p) auto
  from assms(1) obtain T S kids where t: "t = Element T S kids"
    and i: "i < length kids" and at: "chain_at (S # ctx) q (kids ! i) = Some ch"
    by (elim chain_at_SomeE) (auto simp: p)
  from contrastNode_lowContrast [OF at list_all2_blackened_refl assms(3)] show ?thesis
    by (simp add: t p chain_kid_nth i)
qed

section \<open>The scenarios and the claims about the passes\<close>

lemmas parse_defs = parseColor.simps str_def rgbMatchAt_def optional_a_def digits1_def is_digit_def is_ws_def
  parseInt_def digitValue_def digitsValue_def

lemma parseColor_yellow: "parseColor f (str ''rgb(255, 255, 0)'') = (Num 255, Num 255, Num 0)"
  by (simp add: parse_defs)

lemma parseColor_black: "parseColor f (str ''rgb(0, 0, 0)'') = (Num 0, Num 0, Num 0)"
  by (simp add: parse_defs)

lemma parseColor_hex_black: "parseColor f (str ''#000000'') = (Num 0, Num 0, Num 0)"
  by (simp add: parse_defs)

lemma parseColor_100: "parseColor f (str ''rgb(100, 100, 100)'') = (Num 100, Num 100, Num 100)"
  by (simp add: parse_defs)

lemma parseColor_120: "parseColor f (str ''rgb(120, 120, 120)'') = (Num 120, Num 120, Num 120)"
  by (simp add: parse_defs)

lemma declares_black: "declaresBackground (str ''rgb(0, 0, 0)'')"
  by (simp add: declaresBackground_def str_def)

lemma declares_120: "declaresBackground (str ''rgb(120, 120, 120)'')"
  by (simp add: declaresBackground_def str_def)

lemma not_declares_transparent: "\<not> declaresBackground (str ''transparent'')"
  by (simp add: declaresBackground_def)

lemma computedColor_own: "color st = Some c \<Longrightarrow> computedColor (st # anc) = c"
  by simp

lemma effectiveBackground_own:
  "backgroundColor st = Some bg \<Longrightarrow> declaresBackground bg \<Longrightarrow>
   getEffectiveBackgroundColor (st # anc) = bg"
  by (simp add: getEffectiveBackgroundColor_def maxDepth_def computedBackgroundColor_def)

lemma light_yellow_black:
  "isLightOnDark f (str ''rgb(255, 255, 0)'') (str ''rgb(0, 0, 0)'')"
  by (simp add: isLightOnDark_def parseColor_yellow parseColor_black calculateLuminance_Num
        lum_yellow wcag_gray wcag_channel_0)

lemma invertColor_yellow: "invertColor f (str ''rgb(255, 255, 0)'') = str ''#000000''"
  by (simp add: invertColor_def parseColor_yellow calculateLuminance_Num lum_yellow
        lightThreshold_def)

lemma invertStyle_yellow_black:
  assumes "backgroundColor st = Some (str ''rgb(0, 0, 0)'')"
  shows "invertStyle f (str ''rgb(255, 255, 0)'') st =
     st\<lparr>color := Some (str ''#000000''), backgroundColor := Some (str ''transparent'')\<rparr>"
  using assms
  by (simp add: invertStyle_def invertColor_yellow computedBackgroundColor_def declares_black
        parseColor_black calculateLuminance_Num wcag_gray wcag_channel_0 lightThreshold_def)

lemma not_light_gray:
  "\<not> isLightOnDark f (str ''rgb(100, 100, 100)'') (str ''rgb(120, 120, 120)'')"
  using wcag_channel_120
  by (simp add: isLightOnDark_def parseColor_100 parseColor_120 calculateLuminance_Num wcag_gray)

lemma contrast_gray:
  "js_less (calculateContrastRatio (calculateLuminance (Num 100, Num 100, Num 100))
      (calculateLuminance (Num 120, Num 120, Num 120))) (Num contrastRatio)"
proof -
  let ?a = "wcag_channel 100" and ?b = "wcag_channel 120"
  have b: "?a \<le> ?b" "?b \<le> 0.25" using wcag_channel_120 by simp_all
  have a: "0.07 \<le> ?a" using wcag_channel_100 by simp
  have "(?b + 0.05) / (?a + 0.05) < 4.5"
  proof -
    have "?b + 0.05 < 4.5 * (?a + 0.05)" using a b by simp
    moreover have "0 < ?a + 0.05" using a by simp
    ultimately show ?thesis by (simp add: pos_divide_less_eq)
  qed
  then show ?thesis
    using b by (simp add: calculateContrastRatio_def calculateLuminance_Num wcag_gray
        contrastRatio_def max_def min_def)
qed

lemma lowContrast_gray:
  assumes "color st = Some (str ''rgb(100, 100, 100)'')"
    and "backgroundColor st = Some (str ''rgb(120, 120, 120)'')"
  shows "lowContrast f (st # anc)"
  using assms contrast_gray
  by (simp add: lowContrast_def effectiveBackground_own declares_120 parseColor_100 parseColor_120
        del: getEffectiveBackgroundColor_def)

lemma chain_at_nonempty: "chain_at ctx p n = Some ch \<Longrightarrow> ch \<noteq> []"
proof (induction p arbitrary: n ctx)
  case Nil
  then show ?case by (elim chain_at_SomeE) auto
next
  case (Cons i q)
  from Cons.prems obtain tag st kids where "chain_at (st # ctx) q (kids ! i) = Some ch"
    by (elim chain_at_SomeE) auto
  then show ?case by (rule Cons.IH)
qed

lemma list_all2_hd: "list_all2 R xs ys \<Longrightarrow> xs \<noteq> [] \<Longrightarrow> R (hd xs) (hd ys)"
  by (cases xs; cases ys) auto

lemma computed_gray:
  "computedColor (grayOnGray # anc) = str ''rgb(100, 100, 100)''"
  "getEffectiveBackgroundColor (grayOnGray # anc) = str ''rgb(120, 120, 120)''"
  by (simp_all add: grayOnGray_def effectiveBackground_own declares_120)

lemma computed_yellow:
  "computedColor (yellowOnBlack # anc) = str ''rgb(255, 255, 0)''"
  "getEffectiveBackgroundColor (yellowOnBlack # anc) = str ''rgb(0, 0, 0)''"
  by (simp_all add: yellowOnBlack_def effectiveBackground_own declares_black)

lemma str_distinct:
  "str ''visible'' \<noteq> str ''hidden''" "str ''1'' \<noteq> str ''0''"
  "str ''#000000'' \<noteq> str ''rgb(100, 100, 100)''"
  by (simp_all add: str_def)

lemma visibleStyle_plain:
  "visibility st = None \<Longrightarrow> opacity st = None \<Longrightarrow> visibleStyle [noStyle] st = st"
  by (simp add: visibleStyle_def noStyle_def computedOpacity_def str_distinct)

lemma invert_scenarioD: "invertColorsForPDF f [] scenarioD = scenarioD"
  by (simp add: scenarioD_def invertColorsForPDF_Element computed_gray not_light_gray
        del: invertColorsForPDF.simps computedColor.simps)

lemma visible_scenarioD: "ensureTextVisibility [] scenarioD = scenarioD"
  by (simp add: scenarioD_def visibleStyle_plain grayOnGray_def)

lemma process_scenarioD:
  "processStylesForPDF f [] scenarioD =
     Element (str ''div'') noStyle
       [Element (str ''span'') (grayOnGray\<lparr>color := Some (str ''#000000'')\<rparr>) []]"
proof -
  have "fixContrastIssues f [] scenarioD =
     Element (str ''div'') noStyle
       [Element (str ''span'') (grayOnGray\<lparr>color := Some (str ''#000000'')\<rparr>) []]"
    using lowContrast_gray [of grayOnGray f "[noStyle]"]
    by (simp add: scenarioD_def contrastStyle_def) (simp add: grayOnGray_def)
  then show ?thesis
    by (simp add: processStylesForPDF_def invert_scenarioD visible_scenarioD)
qed

lemma length_under: "length (under i fs) = length fs"
  by (simp add: under_def)

lemma length_elementsToInvert:
  "length (elementsToInvert f anc i rest) = sum_list (map (lightOnDarkNode f anc) rest)"
  by (induction f anc i rest rule: elementsToInvert.induct)
     (simp_all add: length_under Let_def)

text \<open>
  C4. Scenario C: an element below the root whose own text color is \<^verbatim>\<open>rgb(255, 255, 0)\<close>
  and whose own background is \<^verbatim>\<open>rgb(0, 0, 0)\<close>, anywhere in any tree. It is classified
  light-on-dark, its luminance exceeds the light threshold, \<open>invertColorsForPDF\<close> sets its
  color to \<^verbatim>\<open>#000000\<close> and its background to \<^verbatim>\<open>transparent\<close> and leaves the rest of its
  style, and both values are still there after the whole of \<open>processStylesForPDF\<close>.
\<close>

theorem scenario_C_light_on_dark:
  assumes "chain_at ctx p t = Some (st # anc)" and "p \<noteq> []"
    and "color st = Some (str ''rgb(255, 255, 0)'')"
    and "backgroundColor st = Some (str ''rgb(0, 0, 0)'')"
  shows "isLightOnDark f (computedColor (st # anc)) (getEffectiveBackgroundColor (st # anc))
    \<and> js_greater (calculateLuminance (parseColor f (computedColor (st # anc)))) (Num lightThreshold)
    \<and> (\<exists>ch'. chain_at ctx p (invertColorsForPDF f ctx t) = Some ch' \<and>
          hd ch' = st\<lparr>color := Some (str ''#000000''),
                      backgroundColor := Some (str ''transparent'')\<rparr>)
    \<and> (\<exists>ch'. chain_at ctx p (processStylesForPDF f ctx t) = Some ch' \<and>
          color (hd ch') = Some (str ''#000000'') \<and>
          backgroundColor (hd ch') = Some (str ''transparent''))"
proof -
  have cc: "computedColor (st # anc) = str ''rgb(255, 255, 0)''"
    using assms(3) by simp
  have bg: "getEffectiveBackgroundColor (st # anc) = str ''rgb(0, 0, 0)''"
    using assms(4) by (simp add: effectiveBackground_own declares_black)
  have lod: "isLightOnDark f (computedColor (st # anc)) (getEffectiveBackgroundColor (st # anc))"
    by (simp only: cc bg light_yellow_black)
  have lum: "js_greater (calculateLuminance (parseColor f (computedColor (st # anc))))
      (Num lightThreshold)"
    by (simp only: cc) (simp add: parseColor_yellow calculateLuminance_Num lum_yellow
        lightThreshold_def)
  let ?st = "st\<lparr>color := Some (str ''#000000''), backgroundColor := Some (str ''transparent'')\<rparr>"
  have "invertedHead f (st # anc) = ?st"
    using lod by (simp only: invertedHead_def cc bg if_True list.sel
        invertStyle_yellow_black [OF assms(4)])
  with chain_at_invertColorsForPDF [OF assms(1,2), of f]
  obtain ch1 where ch1: "chain_at ctx p (invertColorsForPDF f ctx t) = Some ch1" "hd ch1 = ?st"
    by auto
  obtain ch2 where ch2: "chain_at ctx p (ensureTextVisibility ctx (invertColorsForPDF f ctx t)) = Some ch2"
      "list_all2 sameColours ch1 ch2"
    using chain_at_ensureTextVisibility [OF ch1(1)] by blast
  obtain ch3 where ch3: "chain_at ctx p (processStylesForPDF f ctx t) = Some ch3"
      "list_all2 blackened ch2 ch3"
    using chain_at_fixContrastIssues [OF ch2(1), of f] by (auto simp: processStylesForPDF_def)
  have "sameColours (hd ch1) (hd ch2)"
    using ch2(2) chain_at_nonempty [OF ch1(1)] by (rule list_all2_hd)
  moreover have "blackened (hd ch2) (hd ch3)"
    using ch3(2) chain_at_nonempty [OF ch2(1)] by (rule list_all2_hd)
  ultimately have "color (hd ch3) = Some (str ''#000000'') \<and>
      backgroundColor (hd ch3) = Some (str ''transparent'')"
    by (auto simp: sameColours_def blackened_def ch1(2))
  with lod lum ch1 ch3(1) show ?thesis by blast
qed

theorem scenario_C_witness:
  "chain_at [] [0] scenarioC = Some (yellowOnBlack # [noStyle])
   \<and> color yellowOnBlack = Some (str ''rgb(255, 255, 0)'')
   \<and> backgroundColor yellowOnBlack = Some (str ''rgb(0, 0, 0)'')
   \<and> isLightOnDark blackPlatform (computedColor (yellowOnBlack # [noStyle]))
        (getEffectiveBackgroundColor (yellowOnBlack # [noStyle]))
   \<and> (\<exists>ch'. chain_at [] [0] (invertColorsForPDF blackPlatform [] scenarioC) = Some ch' \<and>
          hd ch' = yellowOnBlack\<lparr>color := Some (str ''#000000''),
                      backgroundColor := Some (str ''transparent'')\<rparr>)
   \<and> (\<exists>ch'. chain_at [] [0] (processStylesForPDF blackPlatform [] scenarioC) = Some ch' \<and>
          color (hd ch') = Some (str ''#000000'') \<and>
          backgroundColor (hd ch') = Some (str ''transparent''))"
proof -
  have h: "chain_at [] [0] scenarioC = Some (yellowOnBlack # [noStyle])" "[0::nat] \<noteq> []"
    "color yellowOnBlack = Some (str ''rgb(255, 255, 0)'')"
    "backgroundColor yellowOnBlack = Some (str ''rgb(0, 0, 0)'')"
    by (simp_all add: scenarioC_def yellowOnBlack_def)
  from scenario_C_light_on_dark [OF h, of blackPlatform] h show ?thesis by blast
qed

lemma contrastNode_visit:
  "chain_at anc1 p n = Some ch \<Longrightarrow>
   \<exists>ch'. chain_at anc p (contrastNode f anc n) = Some ch' \<and>
         hd ch' = contrastStyle f (tl ch') (hd ch)"
proof (induction p arbitrary: n anc1 anc)
  case Nil
  then show ?case by (elim chain_at_SomeE) simp
next
  case (Cons i q)
  from Cons.prems(1) obtain tag st kids where n: "n = Element tag st kids"
    and i: "i < length kids" and at: "chain_at (st # anc1) q (kids ! i) = Some ch"
    by (elim chain_at_SomeE) auto
  from Cons.IH [OF at] show ?case
    by (simp add: n chain_kid_nth i)
qed

lemma fixContrastIssues_visit:
  assumes "chain_at ctx p t = Some ch" "p \<noteq> []"
  shows "\<exists>ch'. chain_at ctx p (fixContrastIssues f ctx t) = Some ch' \<and>
           hd ch' = contrastStyle f (tl ch') (hd ch)"
proof -
  obtain i q where p: "p = i # q" using assms(2) by (cases p) auto
  from assms(1) obtain T S kids where t: "t = Element T S kids"
    and i: "i < length kids" and at: "chain_at (S # ctx) q (kids ! i) = Some ch"
    by (elim chain_at_SomeE) (auto simp: p)
  from contrastNode_visit [OF at, of "S # ctx" f] show ?thesis
    by (simp add: t p chain_kid_nth i)
qed

text \<open>
  C5. \<open>fixContrastIssues\<close> runs last, on the tree left by the inversion and the visibility
  pass, and whether an element is light-on-dark plays no part in it. Take an element
  below the root, with the chain \<open>ch\<close> it has on that tree. If its text color and
  effective background resolved on that tree have a contrast ratio below 4.5, its text
  color is \<^verbatim>\<open>#000000\<close> in the end. The same holds of the pair as \<open>fixContrastIssues\<close>
  reads it when it visits the element (its own style, above ancestors it has already
  rewritten): below 4.5, it writes \<^verbatim>\<open>#000000\<close> into the element's own style.
\<close>

theorem low_contrast_forced_black:
  assumes "chain_at ctx p (ensureTextVisibility ctx (invertColorsForPDF f ctx t)) = Some ch"
    and "p \<noteq> []"
  shows "\<exists>ch'. chain_at ctx p (processStylesForPDF f ctx t) = Some ch' \<and>
           (lowContrast f ch \<longrightarrow> computedColor ch' = str ''#000000'') \<and>
           (lowContrast f (hd ch # tl ch') \<longrightarrow> color (hd ch') = Some (str ''#000000''))"
proof -
  obtain ch' where ch': "chain_at ctx p (processStylesForPDF f ctx t) = Some ch'"
      "hd ch' = contrastStyle f (tl ch') (hd ch)"
    using fixContrastIssues_visit [OF assms, of f] by (auto simp: processStylesForPDF_def)
  have "lowContrast f ch \<longrightarrow> computedColor ch' = str ''#000000''"
    using fixContrastIssues_lowContrast [OF assms, of f] ch'(1)
    by (auto simp: processStylesForPDF_def)
  moreover have "lowContrast f (hd ch # tl ch') \<longrightarrow> color (hd ch') = Some (str ''#000000'')"
    by (simp add: ch'(2) contrastStyle_def)
  ultimately show ?thesis using ch'(1) by blast
qed

text \<open>
  Scenario D, the instance the claim names: text \<^verbatim>\<open>rgb(100, 100, 100)\<close> on the background
  \<^verbatim>\<open>rgb(120, 120, 120)\<close> is not light-on-dark, the inversion leaves it alone, and it is
  forced to black.
\<close>

theorem scenario_D_witness:
  "chain_at [] [0] (ensureTextVisibility [] (invertColorsForPDF blackPlatform [] scenarioD)) =
     Some [grayOnGray, noStyle]
   \<and> lowContrast blackPlatform [grayOnGray, noStyle]
   \<and> \<not> isLightOnDark blackPlatform (computedColor [grayOnGray, noStyle])
        (getEffectiveBackgroundColor [grayOnGray, noStyle])
   \<and> (\<exists>ch'. chain_at [] [0] (processStylesForPDF blackPlatform [] scenarioD) = Some ch' \<and>
          computedColor ch' = str ''#000000'' \<and> color (hd ch') = Some (str ''#000000''))"
proof -
  have h: "chain_at [] [0] (ensureTextVisibility [] (invertColorsForPDF blackPlatform [] scenarioD)) =
     Some [grayOnGray, noStyle]"
    by (simp add: invert_scenarioD visible_scenarioD) (simp add: scenarioD_def)
  have low: "lowContrast blackPlatform ([grayOnGray, noStyle])"
    by (rule lowContrast_gray) (simp_all add: grayOnGray_def)
  have low': "lowContrast blackPlatform (hd [grayOnGray, noStyle] # anc)" for anc
    by (simp, rule lowContrast_gray) (simp_all add: grayOnGray_def)
  have nl: "\<not> isLightOnDark blackPlatform (computedColor [grayOnGray, noStyle])
        (getEffectiveBackgroundColor [grayOnGray, noStyle])"
    by (simp only: computed_gray not_light_gray not_False_eq_True)
  obtain ch' where "chain_at [] [0] (processStylesForPDF blackPlatform [] scenarioD) = Some ch'"
    "computedColor ch' = str ''#000000''" "color (hd ch') = Some (str ''#000000'')"
    using low_contrast_forced_black [OF h] low low' by blast
  with h low nl show ?thesis by blast
qed

text \<open>
  C8, as amended. Neither \<open>invertColorsForPDF\<close> nor \<open>processStylesForPDF\<close> returns a
  report. The one number the pass produces is the one \<open>invertColorsForPDF\<close> writes to the
  console: the number of elements below the root that are light-on-dark on the tree as
  it was before the pass.
\<close>

theorem invertedCount_light_on_dark:
  "invertedCount f ctx t = lightOnDarkCount f ctx t"
proof (cases t)
  case (Element tag st kids)
  have "length (elementsToInvert f (st # ctx) 0 kids) =
      sum_list (map (lightOnDarkNode f (st # ctx)) kids)"
    by (rule length_elementsToInvert)
  then show ?thesis by (simp add: Element)
next
  case (Text c)
  then show ?thesis by simp
next
  case (Comment c)
  then show ?thesis by simp
qed

text \<open>
  C8, as stated, fails on Scenario D: the number is 0, and one element has had its color
  rewritten (by \<open>fixContrastIssues\<close>).
\<close>

theorem scenario_D_count:
  "invertedCount blackPlatform [] scenarioD = 0
   \<and> colorChanges scenarioD (processStylesForPDF blackPlatform [] scenarioD) = 1"
proof -
  have "invertedCount blackPlatform [] scenarioD = 0"
    by (simp add: scenarioD_def computed_gray not_light_gray under_def
          del: computedColor.simps)
  moreover have "colorChanges scenarioD (processStylesForPDF blackPlatform [] scenarioD) = 1"
    by (simp add: process_scenarioD) (simp add: scenarioD_def grayOnGray_def noStyle_def str_distinct)
  ultimately show ?thesis by simp
qed

end
